theory Spec2Isabelle
  imports Complex_Main "HOL-Library.Sublist"
begin

section \<open>The training driver of grayskull (\<open>train.py\<close>)\<close>

text \<open>
  The script drives a reinforcement-learning loop: it builds an environment and an
  agent, runs episodes of at most \<open>max_steps\<close> steps each, and finally saves the
  agent when asked to. The environment, the agent, the console, the clock and the
  file system are collaborators of the script. They are parameters of the model: a
  record of operations on a world state \<open>'w\<close>, each returning a value or raising.
  What the driver itself does is recorded as a trace of the calls it makes, in the
  order it makes them.

  The script is Python 2 (it calls \<open>raw_input\<close>), so comparisons with \<open>None\<close> follow
  Python 2. An interruption by the operator is the \<open>KeyboardInterrupt\<close> raised by
  the call of a collaborator during which it arrives. Logging never raises.
\<close>

subsection \<open>Exceptions and values\<close>

text \<open>
  The exception classes the script names, the \<open>NameError\<close> of an unbound global, and
  one constructor for any other error of a collaborator.
\<close>

datatype exn =
    KeyboardInterrupt
  | SolvedGame
  | IncompatibleGameError
  | NameError string
  | OtherError string

text \<open>
  The \<open>save\<close> argument: \<open>None\<close>, a bool, or the int that
  \<open>distutils.util.strtobool\<close> gives on the command line.
\<close>

datatype save_val = SaveNone | SaveBool bool | SaveInt int

text \<open>\<open>save is True\<close>: identity with the singleton \<open>True\<close>.\<close>

fun is_True :: "save_val \<Rightarrow> bool" where
  "is_True (SaveBool b) = b"
| "is_True _ = False"

text \<open>\<open>if save:\<close>: the truth value of the object.\<close>

fun truthy :: "save_val \<Rightarrow> bool" where
  "truthy SaveNone = False"
| "truthy (SaveBool b) = b"
| "truthy (SaveInt n) = (n \<noteq> 0)"

text \<open>
  The variable \<open>agent\<close> holds the agent's name on entry and the agent object after
  construction; the object's state is part of the world.
\<close>

datatype agent_val = AgentName string | AgentObject

text \<open>The run configuration: the arguments of \<open>main\<close>, as local variables.\<close>

record vars =
  v_game :: string
  v_agent :: agent_val
  v_episodes :: int
  v_render :: bool
  v_seed :: "int option"
  v_save :: save_val

subsection \<open>Library functions the script calls\<close>

text \<open>\<open>os.path.join\<close> of \<open>posixpath\<close>: an absolute component restarts the path.\<close>

definition join_step :: "string \<Rightarrow> string \<Rightarrow> string" where
  "join_step path b =
     (if b \<noteq> [] \<and> hd b = CHR ''/'' then b
      else if path = [] \<or> last path = CHR ''/'' then path @ b
      else path @ ''/'' @ b)"

definition os_path_join :: "string \<Rightarrow> string list \<Rightarrow> string" where
  "os_path_join a p = foldl join_step a p"

text \<open>\<open>str.lower\<close> on ASCII letters.\<close>

definition lower_char :: "char \<Rightarrow> char" where
  "lower_char c =
     (let n = (of_char c :: nat) in if 65 \<le> n \<and> n \<le> 90 then char_of (n + 32) else c)"

definition str_lower :: "string \<Rightarrow> string" where
  "str_lower s = map lower_char s"

text \<open>
  The names bound in the module's global namespace when \<open>main\<close> runs (the imports
  of lines 2 to 13 and the module's own definitions), and the builtins the script
  uses. Loading any other global name raises \<open>NameError\<close>.
\<close>

definition module_globals :: "string list" where
  "module_globals =
     [''argparse'', ''distutils'', ''json'', ''logging'', ''os'', ''time'', ''gym'',
      ''AGENTS'', ''grayskull'', ''log'', ''GAMES'', ''main'', ''parse_args'']"

definition builtins_used :: "string list" where
  "builtins_used = [''sorted'', ''raw_input'', ''KeyboardInterrupt'', ''True'', ''False'', ''None'']"

definition load_global :: "string \<Rightarrow> exn + unit" where
  "load_global name =
     (if name \<in> set module_globals \<or> name \<in> set builtins_used then Inr ()
      else Inl (NameError name))"

text \<open>
  Python 2 orders \<open>None\<close> below every number: \<open>step < None\<close> is false, and
  \<open>step == None\<close> is false.
\<close>

fun py_lt :: "int \<Rightarrow> int option \<Rightarrow> bool" where
  "py_lt n None = False"
| "py_lt n (Some m) = (n < m)"

fun py_eq :: "int \<Rightarrow> int option \<Rightarrow> bool" where
  "py_eq n None = False"
| "py_eq n (Some m) = (n = m)"

subsection \<open>Python floats\<close>

text \<open>
  The accumulator \<open>total_reward\<close> starts as the float \<open>0.0\<close> and the rewards are added
  to it with \<open>+=\<close>. The model of the driver is generic in the reward type and uses its
  \<open>0\<close> and \<open>+\<close>; Python's floats are the instance below. A float is an IEEE 754
  binary64 value: \<open>Finite m e\<close> stands for \<open>m * 2 ^ e\<close>, kept with \<open>m\<close> odd (or
  \<open>m = 0\<close>, \<open>e = 0\<close>), beside the two infinities (\<open>Infinity True\<close> is the negative
  one) and NaN. Addition gives the exact sum rounded to 53 significant bits, ties
  to the even significand, and an infinity beyond the largest double; it never
  raises. The sign of zero is not modelled. The sum of two doubles is a multiple of
  the smallest subnormal, so rounding to 53 bits is all that addition needs.
\<close>

datatype pyfloat = Finite int int | Infinity bool | NaN

text \<open>The number of bits of a positive integer.\<close>

function bits :: "int \<Rightarrow> int" where
  "bits m = (if m \<le> 0 then 0 else 1 + bits (m div 2))"
  by pat_completeness auto
termination
  by (relation "measure nat") auto

declare bits.simps [simp del]

text \<open>\<open>m / 2 ^ k\<close> rounded to the nearest integer, a tie to the even one.\<close>

definition round_even :: "int \<Rightarrow> nat \<Rightarrow> int" where
  "round_even m k =
     (let q = m div 2 ^ k; r = m mod 2 ^ k
      in if 2 * r < 2 ^ k then q
         else if 2 ^ k < 2 * r then q + 1
         else if even q then q else q + 1)"

function normal :: "int \<Rightarrow> int \<Rightarrow> pyfloat" where
  "normal m e =
     (if m = 0 then Finite 0 0
      else if even m then normal (m div 2) (e + 1)
      else Finite m e)"
  by pat_completeness auto
termination
  by (relation "measure (\<lambda>(m, e). nat \<bar>m\<bar>)") auto

declare normal.simps [simp del]

definition round_float :: "int \<Rightarrow> int \<Rightarrow> pyfloat" where
  "round_float m e =
     (let k = max 0 (bits \<bar>m\<bar> - 53);
          m' = round_even m (nat k);
          e' = e + k
      in if 1024 < bits \<bar>m'\<bar> + e' then Infinity (m' < 0)
         else normal m' e')"

fun float_add :: "pyfloat \<Rightarrow> pyfloat \<Rightarrow> pyfloat" where
  "float_add NaN y = NaN"
| "float_add x NaN = NaN"
| "float_add (Infinity a) (Infinity b) = (if a = b then Infinity a else NaN)"
| "float_add (Infinity a) (Finite m e) = Infinity a"
| "float_add (Finite m e) (Infinity b) = Infinity b"
| "float_add (Finite m1 e1) (Finite m2 e2) =
     (let e = min e1 e2
      in round_float (m1 * 2 ^ nat (e1 - e) + m2 * 2 ^ nat (e2 - e)) e)"

instantiation pyfloat :: "{plus, zero}"
begin

definition zero_pyfloat :: pyfloat where
  "zero_pyfloat = Finite 0 0"

definition plus_pyfloat :: "pyfloat \<Rightarrow> pyfloat \<Rightarrow> pyfloat" where
  "plus_pyfloat = float_add"

instance ..

end


subsection \<open>Collaborators, trace and state\<close>

text \<open>
  Every call of a collaborator takes the world and gives the outcome and the new
  world. \<open>new_agent name results_path\<close> stands for
  \<open>AGENTS[agent_name](action_space=..., observation_space=..., results_path=..., **agent_args)\<close>;
  \<open>env_max_episode_steps\<close> for the lookup of
  \<open>wrapper_config.TimeLimit.max_episode_steps\<close> in the environment's tags, which is
  \<open>None\<close> when the tag is absent. \<open>env_step\<close> gives the new observation, the reward
  and the done flag (the fourth component is ignored by the script). The reward is
  a number of the type \<open>'r\<close> of the accumulator, a float in gym's environments; a
  reward that cannot be added to a float is outside the model.
\<close>

record ('w, 'o, 'a, 'r) collab =
  time_strftime :: "'w \<Rightarrow> string"
  os_makedirs :: "string \<Rightarrow> 'w \<Rightarrow> (exn + unit) \<times> 'w"
  gym_make :: "string \<Rightarrow> 'w \<Rightarrow> (exn + unit) \<times> 'w"
  random_seed :: "int \<Rightarrow> 'w \<Rightarrow> (exn + unit) \<times> 'w"
  np_random_seed :: "int \<Rightarrow> 'w \<Rightarrow> (exn + unit) \<times> 'w"
  env_seed :: "int \<Rightarrow> 'w \<Rightarrow> (exn + unit) \<times> 'w"
  new_agent :: "string \<Rightarrow> string \<Rightarrow> 'w \<Rightarrow> (exn + unit) \<times> 'w"
  env_max_episode_steps :: "'w \<Rightarrow> int option"
  env_reset :: "'w \<Rightarrow> (exn + 'o) \<times> 'w"
  env_render :: "'w \<Rightarrow> (exn + unit) \<times> 'w"
  agent_act :: "'o \<Rightarrow> 'w \<Rightarrow> (exn + 'a) \<times> 'w"
  env_step :: "'a \<Rightarrow> 'w \<Rightarrow> (exn + 'o \<times> 'r \<times> bool) \<times> 'w"
  agent_react :: "'o \<Rightarrow> 'a \<Rightarrow> 'r \<Rightarrow> bool \<Rightarrow> 'o \<Rightarrow> bool \<Rightarrow> 'w \<Rightarrow> (exn + unit) \<times> 'w"
  raw_input :: "string \<Rightarrow> 'w \<Rightarrow> (exn + string) \<times> 'w"
  agent_save :: "string \<Rightarrow> 'w \<Rightarrow> (exn + unit) \<times> 'w"

text \<open>
  One event per call the driver makes, with the arguments it passes. \<open>Step\<close> also
  records what \<open>env.step\<close> gave back. \<open>React\<close> carries the transition in the order of
  the call: observation, action, reward, done, new observation, truncation flag.
  \<open>LogDebug episode total_reward\<close>, \<open>LogInfo episode\<close> and the two error logs are
  the script's four logging calls.
\<close>

datatype ('o, 'a, 'r) event =
    MakeDirs string
  | GymMake string
  | RandomSeed int
  | NpRandomSeed int
  | EnvSeed int
  | NewAgent string string
  | Reset
  | Render
  | Act 'o
  | Step 'a "exn + 'o \<times> 'r \<times> bool"
  | React 'o 'a 'r bool 'o bool
  | LogDebug int 'r
  | LogErrorExn exn
  | LogError string
  | LogInfo int
  | RawInput string
  | Save string

record ('w, 'o, 'a, 'r) st =
  world :: 'w
  trace :: "('o, 'a, 'r) event list"
  vars :: vars

text \<open>The variables of one episode (lines 104 to 109).\<close>

record ('o, 'r) ep =
  observation :: 'o
  is_done :: bool
  total_reward :: 'r
  step :: int

definition emit :: "('o, 'a, 'r) event \<Rightarrow> ('w, 'o, 'a, 'r) st \<Rightarrow> ('w, 'o, 'a, 'r) st" where
  "emit ev s = s\<lparr>trace := trace s @ [ev]\<rparr>"

definition call ::
  "('o, 'a, 'r) event \<Rightarrow> ('w \<Rightarrow> (exn + 'v) \<times> 'w) \<Rightarrow> ('w, 'o, 'a, 'r) st
     \<Rightarrow> (exn + 'v) \<times> ('w, 'o, 'a, 'r) st" where
  "call ev f s = (case f (world s) of (r, w') \<Rightarrow> (r, s\<lparr>world := w', trace := trace s @ [ev]\<rparr>))"

definition call_step ::
  "('w, 'o, 'a, 'r) collab \<Rightarrow> 'a \<Rightarrow> ('w, 'o, 'a, 'r) st
     \<Rightarrow> (exn + 'o \<times> 'r \<times> bool) \<times> ('w, 'o, 'a, 'r) st" where
  "call_step ops a s =
     (case env_step ops a (world s) of
        (r, w') \<Rightarrow> (r, s\<lparr>world := w', trace := trace s @ [Step a r]\<rparr>))"

text \<open>Sequencing: a raised exception skips the rest.\<close>

definition and_then ::
  "('s \<Rightarrow> (exn + 'u) \<times> 's) \<Rightarrow> ('u \<Rightarrow> 's \<Rightarrow> (exn + 'v) \<times> 's) \<Rightarrow> 's \<Rightarrow> (exn + 'v) \<times> 's" where
  "and_then m k s = (case m s of (Inl e, s') \<Rightarrow> (Inl e, s') | (Inr v, s') \<Rightarrow> k v s')"

definition skip :: "'s \<Rightarrow> (exn + unit) \<times> 's" where
  "skip s = (Inr (), s)"

subsection \<open>The step loop (lines 112 to 136)\<close>

definition step_body ::
  "('w, 'o, 'a, 'r::plus) collab \<Rightarrow> int option \<Rightarrow> ('o, 'r) ep \<Rightarrow> ('w, 'o, 'a, 'r) st
     \<Rightarrow> (exn + ('o, 'r) ep) \<times> ('w, 'o, 'a, 'r) st" where
  "step_body ops max_steps v s =
     (let step' = step v + 1 in
      and_then (if v_render (vars s) then call Render (env_render ops) else skip) (\<lambda>_.
      and_then (call (Act (observation v)) (agent_act ops (observation v))) (\<lambda>action.
      and_then (call_step ops action) (\<lambda>(new_observation, reward, done').
      let total_reward' = total_reward v + reward in
      and_then (call (React (observation v) action reward done' new_observation
                        (py_eq step' max_steps))
                  (agent_react ops (observation v) action reward done' new_observation
                        (py_eq step' max_steps))) (\<lambda>_ s'.
        (Inr \<lparr>observation = new_observation, is_done = done',
              total_reward = total_reward', step = step'\<rparr>, s'))))) s)"

function step_loop ::
  "('w, 'o, 'a, 'r::plus) collab \<Rightarrow> int option \<Rightarrow> ('o, 'r) ep \<Rightarrow> ('w, 'o, 'a, 'r) st
     \<Rightarrow> (exn + ('o, 'r) ep) \<times> ('w, 'o, 'a, 'r) st" where
  "step_loop ops max_steps v s =
     (if py_lt (step v) max_steps \<and> \<not> is_done v then
        (case step_body ops max_steps v s of
           (Inl e, s') \<Rightarrow> (Inl e, s')
         | (Inr v', s') \<Rightarrow> step_loop ops max_steps v' s')
      else (Inr v, s))"
  by pat_completeness auto
termination
  apply (relation "measure (\<lambda>(ops, max_steps, v, s). nat (the max_steps - step v))")
   apply simp
  subgoal for ops max_steps v s x1 s' v'
    by (cases max_steps)
      (auto simp: step_body_def and_then_def Let_def split: prod.splits sum.splits if_splits)
  done

declare step_loop.simps [simp del]

subsection \<open>The episode loop (lines 100 to 138)\<close>

text \<open>One pass of the outer loop's body after \<open>episode += 1\<close>.\<close>

definition run_episode ::
  "('w, 'o, 'a, 'r::{plus,zero}) collab \<Rightarrow> int option \<Rightarrow> int \<Rightarrow> ('w, 'o, 'a, 'r) st
     \<Rightarrow> (exn + unit) \<times> ('w, 'o, 'a, 'r) st" where
  "run_episode ops max_steps episode s =
     and_then (call Reset (env_reset ops)) (\<lambda>obs.
     and_then (step_loop ops max_steps
                 \<lparr>observation = obs, is_done = False, total_reward = 0, step = 0\<rparr>) (\<lambda>v s'.
       (Inr (), emit (LogDebug episode (total_reward v)) s'))) s"

text \<open>
  The loop \<open>while episodes == -1 or episode < episodes\<close> can run forever, so it
  takes fuel: the number of episodes it may start. \<open>None\<close> is "still running". The
  result carries the value of \<open>episode\<close>, which the handler of \<open>SolvedGame\<close> logs.
\<close>

fun episode_loop ::
  "nat \<Rightarrow> ('w, 'o, 'a, 'r::{plus,zero}) collab \<Rightarrow> int option \<Rightarrow> int \<Rightarrow> ('w, 'o, 'a, 'r) st
     \<Rightarrow> ((exn + unit) \<times> int \<times> ('w, 'o, 'a, 'r) st) option" where
  "episode_loop fuel ops max_steps episode s =
     (if v_episodes (vars s) = - 1 \<or> episode < v_episodes (vars s) then
        (case fuel of
           0 \<Rightarrow> None
         | Suc n \<Rightarrow>
            (case run_episode ops max_steps (episode + 1) s of
               (Inl e, s') \<Rightarrow> Some (Inl e, episode + 1, s')
             | (Inr _, s') \<Rightarrow> episode_loop n ops max_steps (episode + 1) s'))
      else Some (Inr (), episode, s))"

declare episode_loop.simps [simp del]

subsection \<open>Handlers and finalization (lines 139 to 150)\<close>

text \<open>
  The two \<open>except\<close> clauses: they log and clear the exception. Any other exception
  stays pending across the \<open>finally\<close> block.
\<close>

fun handlers ::
  "exn + unit \<Rightarrow> int \<Rightarrow> ('w, 'o, 'a, 'r) st \<Rightarrow> exn option \<times> ('w, 'o, 'a, 'r) st" where
  "handlers (Inr _) episode s = (None, s)"
| "handlers (Inl KeyboardInterrupt) episode s = (None, emit (LogError ''Canceled by user!'') s)"
| "handlers (Inl SolvedGame) episode s = (None, emit (LogInfo episode) s)"
| "handlers (Inl e) episode s = (Some e, s)"

definition ask_save :: "('w, 'o, 'a, 'r) collab \<Rightarrow> ('w, 'o, 'a, 'r) st \<Rightarrow> (exn + unit) \<times> ('w, 'o, 'a, 'r) st" where
  "ask_save ops =
     and_then (call (RawInput ''Save agent? '') (raw_input ops ''Save agent? '')) (\<lambda>yn s.
       (Inr (), if str_lower yn = ''y'' then s\<lparr>vars := (vars s)\<lparr>v_save := SaveBool True\<rparr>\<rparr> else s))"

definition finalize ::
  "('w, 'o, 'a, 'r) collab \<Rightarrow> string \<Rightarrow> ('w, 'o, 'a, 'r) st \<Rightarrow> (exn + unit) \<times> ('w, 'o, 'a, 'r) st" where
  "finalize ops results_path s =
     and_then (if v_save (vars s) = SaveNone then ask_save ops else skip) (\<lambda>_ s'.
       if truthy (v_save (vars s'))
       then call (Save (os_path_join results_path [''final.pkl'']))
              (agent_save ops (os_path_join results_path [''final.pkl''])) s'
       else skip s') s"

subsection \<open>The function \<open>main\<close>\<close>

datatype result = Returned_None | Returned_Agent | Uncaught exn

text \<open>
  Lines 96 to 152: the \<open>try\<close> statement and \<open>return agent\<close>. An exception raised in
  the \<open>finally\<close> block replaces a pending one.
\<close>

definition try_loop ::
  "nat \<Rightarrow> ('w, 'o, 'a, 'r::{plus,zero}) collab \<Rightarrow> string \<Rightarrow> int option \<Rightarrow> ('w, 'o, 'a, 'r) st
     \<Rightarrow> (result \<times> ('w, 'o, 'a, 'r) st) option" where
  "try_loop fuel ops results_path max_steps s =
     (case episode_loop fuel ops max_steps 0 s of
        None \<Rightarrow> None
      | Some (r, episode, s1) \<Rightarrow>
         (case handlers r episode s1 of
            (pending, s2) \<Rightarrow>
              (case finalize ops results_path s2 of
                 (Inl e, s3) \<Rightarrow> Some (Uncaught e, s3)
               | (Inr _, s3) \<Rightarrow>
                   Some (case pending of None \<Rightarrow> Returned_Agent | Some e \<Rightarrow> Uncaught e, s3))))"

text \<open>Lines 74 to 77. The names \<open>random\<close> and \<open>np\<close> are looked up when the branch runs.\<close>

definition seeding ::
  "('w, 'o, 'a, 'r) collab \<Rightarrow> ('w, 'o, 'a, 'r) st \<Rightarrow> (exn + unit) \<times> ('w, 'o, 'a, 'r) st" where
  "seeding ops s =
     (case v_seed (vars s) of
        None \<Rightarrow> skip s
      | Some n \<Rightarrow>
         and_then (\<lambda>s. (load_global ''random'', s)) (\<lambda>_.
         and_then (call (RandomSeed n) (random_seed ops n)) (\<lambda>_.
         and_then (\<lambda>s. (load_global ''np'', s)) (\<lambda>_.
         and_then (call (NpRandomSeed n) (np_random_seed ops n)) (\<lambda>_.
           call (EnvSeed n) (env_seed ops n))))) s)"

text \<open>Lines 68 to 77: the results directory, the environment, the seeds.\<close>

definition prepare ::
  "('w, 'o, 'a, 'r) collab \<Rightarrow> string \<Rightarrow> ('w, 'o, 'a, 'r) st \<Rightarrow> (exn + unit) \<times> ('w, 'o, 'a, 'r) st" where
  "prepare ops results_path s =
     and_then (if is_True (v_save (vars s))
               then call (MakeDirs results_path) (os_makedirs ops results_path) else skip) (\<lambda>_.
     and_then (call (GymMake (v_game (vars s))) (gym_make ops (v_game (vars s)))) (\<lambda>_.
       seeding ops)) s"

text \<open>Lines 80 to 88: \<open>agent_name = agent\<close>, then \<open>agent\<close> is rebound to the object.\<close>

definition construct_agent ::
  "('w, 'o, 'a, 'r) collab \<Rightarrow> string \<Rightarrow> string \<Rightarrow> ('w, 'o, 'a, 'r) st
     \<Rightarrow> (exn + unit) \<times> ('w, 'o, 'a, 'r) st" where
  "construct_agent ops agent_name results_path =
     and_then (call (NewAgent agent_name results_path) (new_agent ops agent_name results_path))
       (\<lambda>_ s. (Inr (), s\<lparr>vars := (vars s)\<lparr>v_agent := AgentObject\<rparr>\<rparr>))"

text \<open>
  Lines 64 to 94, up to the \<open>try\<close> statement: either \<open>main\<close> is over (an uncaught
  exception, or the \<open>return\<close> of line 91), or the loop starts with the results path,
  the step limit and the state reached. Of the arguments of \<open>main\<close>, \<open>monitor\<close> and
  \<open>kwargs\<close> are never read, and \<open>agent_args\<close> only travels to the constructor, which is
  the parameter \<open>new_agent\<close>; the three are left out.
\<close>

definition startup ::
  "('w, 'o, 'a, 'r) collab \<Rightarrow> string \<Rightarrow> string \<Rightarrow> int \<Rightarrow> bool \<Rightarrow> int option \<Rightarrow> save_val \<Rightarrow> 'w
     \<Rightarrow> (result \<times> ('w, 'o, 'a, 'r) st) + (string \<times> int option \<times> ('w, 'o, 'a, 'r) st)" where
  "startup ops game agent episodes render seed save w =
     (let s0 = \<lparr>world = w, trace = [],
                vars = \<lparr>v_game = game, v_agent = AgentName agent, v_episodes = episodes,
                        v_render = render, v_seed = seed, v_save = save\<rparr>\<rparr>;
          date = time_strftime ops w;
          results_path = os_path_join ''results'' [agent, game, date]
      in case prepare ops results_path s0 of
           (Inl e, s1) \<Rightarrow> Inl (Uncaught e, s1)
         | (Inr _, s1) \<Rightarrow>
            (case construct_agent ops agent results_path s1 of
               (Inl e, s2) \<Rightarrow>
                 if e = IncompatibleGameError
                 then Inl (Returned_None, emit (LogErrorExn e) s2)
                 else Inl (Uncaught e, s2)
             | (Inr _, s2) \<Rightarrow>
                 Inr (results_path, env_max_episode_steps ops (world s2), s2)))"

definition main ::
  "nat \<Rightarrow> ('w, 'o, 'a, 'r::{plus,zero}) collab \<Rightarrow> string \<Rightarrow> string \<Rightarrow> int \<Rightarrow> bool
     \<Rightarrow> int option \<Rightarrow> save_val \<Rightarrow> 'w \<Rightarrow> (result \<times> ('w, 'o, 'a, 'r) st) option" where
  "main fuel ops game agent episodes render seed save w =
     (case startup ops game agent episodes render seed save w of
        Inl early \<Rightarrow> Some early
      | Inr (results_path, max_steps, s) \<Rightarrow> try_loop fuel ops results_path max_steps s)"

subsection \<open>Reading a trace\<close>

text \<open>The calls of an episode: everything between the loop's head and its log line.\<close>

fun episode_event :: "('o, 'a, 'r) event \<Rightarrow> bool" where
  "episode_event Reset = True"
| "episode_event Render = True"
| "episode_event (Act ob) = True"
| "episode_event (Step a r) = True"
| "episode_event (React ob a r d ob' t) = True"
| "episode_event (LogDebug n v) = True"
| "episode_event _ = False"

fun agent_event :: "('o, 'a, 'r) event \<Rightarrow> bool" where
  "agent_event (NewAgent n p) = True"
| "agent_event _ = False"

text \<open>The calls that touch the file system.\<close>

fun fs_event :: "('o, 'a, 'r) event \<Rightarrow> bool" where
  "fs_event (MakeDirs p) = True"
| "fs_event (Save p) = True"
| "fs_event _ = False"

text \<open>The transitions handed to \<open>agent.react\<close>: the done flag and the truncation flag.\<close>

fun react_flags :: "('o, 'a, 'r) event list \<Rightarrow> (bool \<times> bool) list" where
  "react_flags [] = []"
| "react_flags (React ob a r d ob' t # es) = (d, t) # react_flags es"
| "react_flags (e # es) = react_flags es"

text \<open>The rewards that the calls of \<open>env.step\<close> returned.\<close>

fun step_rewards :: "('o, 'a, 'r) event list \<Rightarrow> 'r list" where
  "step_rewards [] = []"
| "step_rewards (Step a (Inr (ob, r, d)) # es) = r # step_rewards es"
| "step_rewards (e # es) = step_rewards es"


text \<open>
  The outline of a trace: the resets, the calls of \<open>env.step\<close> and the episode log
  lines with their episode numbers, in order.
\<close>

datatype mark = MReset | MStep | MLog int

fun outline :: "('o, 'a, 'r) event list \<Rightarrow> mark list" where
  "outline [] = []"
| "outline (Reset # es) = MReset # outline es"
| "outline (Step a r # es) = MStep # outline es"
| "outline (LogDebug n v # es) = MLog n # outline es"
| "outline (e # es) = outline es"

text \<open>The prompts and the saves of a trace.\<close>

fun prompts :: "('o, 'a, 'r) event list \<Rightarrow> string list" where
  "prompts [] = []"
| "prompts (RawInput p # es) = p # prompts es"
| "prompts (e # es) = prompts es"

fun saves :: "('o, 'a, 'r) event list \<Rightarrow> string list" where
  "saves [] = []"
| "saves (Save p # es) = p # saves es"
| "saves (e # es) = saves es"

subsection \<open>Assumptions on collaborators\<close>

text \<open>A call that never raises.\<close>

definition returns :: "('w \<Rightarrow> (exn + 'v) \<times> 'w) \<Rightarrow> bool" where
  "returns f = (\<forall>w. \<not> isl (fst (f w)))"

text \<open>No call made inside the episode loop raises.\<close>

definition quiet :: "('w, 'o, 'a, 'r) collab \<Rightarrow> bool" where
  "quiet ops =
     (returns (env_reset ops) \<and> returns (env_render ops)
      \<and> (\<forall>ob. returns (agent_act ops ob))
      \<and> (\<forall>a. returns (env_step ops a))
      \<and> (\<forall>ob a r d ob' t. returns (agent_react ops ob a r d ob' t)))"

text \<open>
  An environment whose every episode ends naturally at step \<open>k\<close>: some counter
  \<open>cnt\<close> of the world is zero after a reset, goes up by one with every step, is left
  alone by the other calls, and \<open>env.step\<close> reports done exactly when it reaches \<open>k\<close>.
  No call raises.
\<close>

definition done_at :: "('w, 'o, 'a, 'r) collab \<Rightarrow> ('w \<Rightarrow> int) \<Rightarrow> int \<Rightarrow> bool" where
  "done_at ops cnt k =
     ((\<forall>w. \<exists>ob w'. env_reset ops w = (Inr ob, w') \<and> cnt w' = 0)
      \<and> (\<forall>w. \<exists>w'. env_render ops w = (Inr (), w') \<and> cnt w' = cnt w)
      \<and> (\<forall>ob w. \<exists>a w'. agent_act ops ob w = (Inr a, w') \<and> cnt w' = cnt w)
      \<and> (\<forall>a w. \<exists>ob r w'. env_step ops a w = (Inr (ob, r, cnt w + 1 = k), w')
              \<and> cnt w' = cnt w + 1)
      \<and> (\<forall>ob a r d ob' t w. \<exists>w'. agent_react ops ob a r d ob' t w = (Inr (), w')
              \<and> cnt w' = cnt w))"

subsection \<open>A concrete world\<close>

text \<open>
  An environment that counts the steps of the current episode and reports done at
  step \<open>k\<close> (never, when \<open>k = 0\<close>), with step limit 10 and reward 1 per step; an
  agent that answers the parity of the observation; an operator who types \<open>Y\<close>.
\<close>

definition toy_ops :: "nat \<Rightarrow> (nat, nat, nat, int) collab" where
  "toy_ops k =
     \<lparr>time_strftime = (\<lambda>w. ''17-03-05-10-20-30''),
      os_makedirs = (\<lambda>p w. (Inr (), w)),
      gym_make = (\<lambda>g w. (Inr (), w)),
      random_seed = (\<lambda>n w. (Inr (), w)),
      np_random_seed = (\<lambda>n w. (Inr (), w)),
      env_seed = (\<lambda>n w. (Inr (), w)),
      new_agent = (\<lambda>n p w. (Inr (), w)),
      env_max_episode_steps = (\<lambda>w. Some 10),
      env_reset = (\<lambda>w. (Inr 0, 0)),
      env_render = (\<lambda>w. (Inr (), w)),
      agent_act = (\<lambda>ob w. (Inr (ob mod 2), w)),
      env_step = (\<lambda>a w. (Inr (Suc w, 1, Suc w = k), Suc w)),
      agent_react = (\<lambda>ob a r d ob' t w. (Inr (), w)),
      raw_input = (\<lambda>p w. (Inr ''Y'', w)),
      agent_save = (\<lambda>p w. (Inr (), w))\<rparr>"

text \<open>The same world with an agent that cannot play the game.\<close>

definition incompatible_ops :: "(nat, nat, nat, int) collab" where
  "incompatible_ops = (toy_ops 5)\<lparr>new_agent := (\<lambda>n p w. (Inl IncompatibleGameError, w))\<rparr>"

text \<open>The same world with an operator who interrupts the third step of an episode.\<close>

definition interrupted_ops :: "(nat, nat, nat, int) collab" where
  "interrupted_ops =
     (toy_ops 5)\<lparr>env_step := (\<lambda>a w. if w = 2 then (Inl KeyboardInterrupt, w)
                                     else (Inr (Suc w, 1, Suc w = 5), Suc w))\<rparr>"

text \<open>The same world with an operator who types \<open>n\<close>.\<close>

definition declining_ops :: "(nat, nat, nat, int) collab" where
  "declining_ops = (toy_ops 5)\<lparr>raw_input := (\<lambda>p w. (Inr ''n'', w))\<rparr>"


text \<open>The state in which this world enters the episode loop with budget \<open>n\<close>.\<close>

definition toy_state :: "int \<Rightarrow> (nat, nat, nat, int) st" where
  "toy_state n =
     \<lparr>world = 0, trace = [],
      vars = \<lparr>v_game = ''CartPole-v0'', v_agent = AgentObject, v_episodes = n,
              v_render = False, v_seed = None, v_save = SaveBool False\<rparr>\<rparr>"


section \<open>Properties\<close>

subsection \<open>The step loop\<close>

lemma react_flags_append [simp]: "react_flags (xs @ ys) = react_flags xs @ react_flags ys"
  by (induction xs rule: react_flags.induct) simp_all

lemma step_rewards_append [simp]: "step_rewards (xs @ ys) = step_rewards xs @ step_rewards ys"
  by (induction xs rule: step_rewards.induct) simp_all

lemma outline_append [simp]: "outline (xs @ ys) = outline xs @ outline ys"
  by (induction xs rule: outline.induct) simp_all

lemma prompts_append [simp]: "prompts (xs @ ys) = prompts xs @ prompts ys"
  by (induction xs rule: prompts.induct) simp_all

lemma saves_append [simp]: "saves (xs @ ys) = saves xs @ saves ys"
  by (induction xs rule: saves.induct) simp_all

lemma step_body_Inr:
  assumes "step_body ops ms v s = (Inr v', s')"
  shows "\<exists>a ob' rew d.
           v' = \<lparr>observation = ob', is_done = d, total_reward = total_reward v + rew,
                 step = step v + 1\<rparr>
         \<and> trace s' = trace s @ (if v_render (vars s) then [Render] else [])
               @ [Act (observation v), Step a (Inr (ob', rew, d)),
                  React (observation v) a rew d ob' (py_eq (step v + 1) ms)]
         \<and> vars s' = vars s"
  using assms
  by (auto simp: step_body_def and_then_def call_def call_step_def skip_def Let_def
      split: prod.splits sum.splits if_splits)

lemma step_body_Inl:
  assumes "step_body ops ms v s = (Inl e, s')"
  shows "vars s' = vars s
         \<and> (\<exists>evs. trace s' = trace s @ evs
              \<and> list_all episode_event evs
              \<and> filter (\<lambda>m. m \<noteq> MStep) (outline evs) = []
              \<and> length (outline evs) \<le> 1
              \<and> (react_flags evs = [] \<or> (\<exists>d. react_flags evs = [(d, py_eq (step v + 1) ms)])))"
  using assms
  by (auto simp: step_body_def and_then_def call_def call_step_def skip_def Let_def
      split: prod.splits sum.splits if_splits)


lemma step_loop_stop:
  "\<not> (py_lt (step v) ms \<and> \<not> is_done v) \<Longrightarrow> step_loop ops ms v s = (Inr v, s)"
  by (subst step_loop.simps) auto

lemma step_loop_raise:
  "py_lt (step v) ms \<and> \<not> is_done v \<Longrightarrow> step_body ops ms v s = (Inl e, s1)
     \<Longrightarrow> step_loop ops ms v s = (Inl e, s1)"
  by (subst step_loop.simps) simp

lemma step_loop_next:
  "py_lt (step v) ms \<and> \<not> is_done v \<Longrightarrow> step_body ops ms v s = (Inr v1, s1)
     \<Longrightarrow> step_loop ops ms v s = step_loop ops ms v1 s1"
  by (subst step_loop.simps) simp

lemma step_loop_vars:
  "step_loop ops ms v s = (r, s') \<Longrightarrow> vars s' = vars s"
proof (induction ops ms v s rule: step_loop.induct)
  case (1 ops ms v s)
  show ?case
  proof (cases "py_lt (step v) ms \<and> \<not> is_done v")
    case False
    with "1.prems" show ?thesis by (simp add: step_loop_stop)
  next
    case True
    obtain x s1 where b: "step_body ops ms v s = (x, s1)" by (cases "step_body ops ms v s")
    show ?thesis
    proof (cases x)
      case (Inl e)
      with b True "1.prems" step_body_Inl [of ops ms v s e s1] show ?thesis
        by (simp add: step_loop_raise)
    next
      case (Inr v1)
      with b True "1.prems" have "step_loop ops ms v1 s1 = (r, s')"
        by (simp add: step_loop_next)
      with "1.IH" [of x s1 v1] b True Inr have "vars s' = vars s1" by simp
      with step_body_Inr [of ops ms v s v1 s1] b Inr show ?thesis by auto
    qed
  qed
qed

lemma step_loop_flags:
  "step_loop ops (Some L) v s = (r, s') \<Longrightarrow> step v \<le> L \<Longrightarrow>
     \<exists>evs. trace s' = trace s @ evs
        \<and> list_all episode_event evs
        \<and> filter (\<lambda>m. m \<noteq> MStep) (outline evs) = []
        \<and> length (outline evs) \<le> nat (L - step v)
        \<and> length (react_flags evs) \<le> nat (L - step v)
        \<and> (\<forall>i < length (react_flags evs).
              snd (react_flags evs ! i) = (step v + int i + 1 = L))"
proof (induction ops "Some L" v s rule: step_loop.induct)
  case (1 ops v s)
  show ?case
  proof (cases "py_lt (step v) (Some L) \<and> \<not> is_done v")
    case False
    with "1.prems" show ?thesis by (simp add: step_loop_stop)
  next
    case True
    obtain x s1 where b: "step_body ops (Some L) v s = (x, s1)"
      by (cases "step_body ops (Some L) v s")
    show ?thesis
    proof (cases x)
      case (Inl e)
      with b True "1.prems" have "s' = s1"
        by (simp add: step_loop_raise)
      with step_body_Inl [of ops "Some L" v s e s1] b Inl True show ?thesis
        by (auto simp: nth_Cons')
    next
      case (Inr v1)
      with b True "1.prems" have l: "step_loop ops (Some L) v1 s1 = (r, s')"
        by (simp add: step_loop_next)
      from step_body_Inr [of ops "Some L" v s v1 s1] b Inr
      obtain a ob' rew d where
        v1: "step v1 = step v + 1"
        and t1: "trace s1 = trace s @ (if v_render (vars s) then [Render] else [])
               @ [Act (observation v), Step a (Inr (ob', rew, d)),
                  React (observation v) a rew d ob' (py_eq (step v + 1) (Some L))]"
        by auto
      from True v1 have le: "step v1 \<le> L" by simp
      from "1.hyps" [of x s1 v1] b True Inr l le
      obtain evs where e: "trace s' = trace s1 @ evs"
        "list_all episode_event evs"
        "filter (\<lambda>m. m \<noteq> MStep) (outline evs) = []"
        "length (outline evs) \<le> nat (L - step v1)"
        "length (react_flags evs) \<le> nat (L - step v1)"
        "\<forall>i < length (react_flags evs).
              snd (react_flags evs ! i) = (step v1 + int i + 1 = L)"
        by auto
      let ?new = "(if v_render (vars s) then [Render] else [])
               @ [Act (observation v), Step a (Inr (ob', rew, d)),
                  React (observation v) a rew d ob' (py_eq (step v + 1) (Some L))] @ evs"
      have "trace s' = trace s @ ?new" using e(1) t1 by simp
      moreover have "list_all episode_event ?new" using e(2) by simp
      moreover have "filter (\<lambda>m. m \<noteq> MStep) (outline ?new) = []" using e(3) by simp
      moreover have "length (outline ?new) \<le> nat (L - step v)" using e(4) v1 True by simp linarith
      moreover have "length (react_flags ?new) \<le> nat (L - step v)" using e(5) v1 True by simp linarith
      moreover have "\<forall>i < length (react_flags ?new).
              snd (react_flags ?new ! i) = (step v + int i + 1 = L)"
        using e(6) v1 by (auto simp: nth_Cons')
      ultimately show ?thesis by blast
    qed
  qed
qed


lemma step_loop_shape:
  "step_loop ops ms v s = (r, s') \<Longrightarrow>
     \<exists>evs. trace s' = trace s @ evs
        \<and> list_all episode_event evs
        \<and> filter (\<lambda>m. m \<noteq> MStep) (outline evs) = []
        \<and> (\<forall>v'. r = Inr v' \<longrightarrow> total_reward v' = foldl (+) (total_reward v) (step_rewards evs))"
proof (induction ops ms v s rule: step_loop.induct)
  case (1 ops ms v s)
  show ?case
  proof (cases "py_lt (step v) ms \<and> \<not> is_done v")
    case False
    with "1.prems" show ?thesis by (auto simp: step_loop_stop)
  next
    case True
    obtain x s1 where b: "step_body ops ms v s = (x, s1)"
      by (cases "step_body ops ms v s")
    show ?thesis
    proof (cases x)
      case (Inl e)
      with b True "1.prems" have "s' = s1" "r = Inl e"
        by (simp_all add: step_loop_raise)
      with step_body_Inl [of ops ms v s e s1] b Inl show ?thesis
        by auto
    next
      case (Inr v1)
      with b True "1.prems" have l: "step_loop ops ms v1 s1 = (r, s')"
        by (simp add: step_loop_next)
      from step_body_Inr [of ops ms v s v1 s1] b Inr
      obtain a ob' rew d where
        v1: "total_reward v1 = total_reward v + rew"
        and t1: "trace s1 = trace s @ (if v_render (vars s) then [Render] else [])
               @ [Act (observation v), Step a (Inr (ob', rew, d)),
                  React (observation v) a rew d ob' (py_eq (step v + 1) ms)]"
        by auto
      from "1.IH" [of x s1 v1] b True Inr l
      obtain evs where e: "trace s' = trace s1 @ evs"
        "list_all episode_event evs"
        "filter (\<lambda>m. m \<noteq> MStep) (outline evs) = []"
        "\<forall>v'. r = Inr v' \<longrightarrow> total_reward v' = foldl (+) (total_reward v1) (step_rewards evs)"
        by auto
      let ?new = "(if v_render (vars s) then [Render] else [])
               @ [Act (observation v), Step a (Inr (ob', rew, d)),
                  React (observation v) a rew d ob' (py_eq (step v + 1) ms)] @ evs"
      have "trace s' = trace s @ ?new" using e(1) t1 by simp
      moreover have "list_all episode_event ?new" using e(2) by simp
      moreover have "filter (\<lambda>m. m \<noteq> MStep) (outline ?new) = []" using e(3) by simp
      moreover have "\<forall>v'. r = Inr v' \<longrightarrow>
          total_reward v' = foldl (+) (total_reward v) (step_rewards ?new)"
        using e(4) v1 by simp
      ultimately show ?thesis by blast
    qed
  qed
qed

subsection \<open>One episode\<close>

lemma run_episode_shape:
  assumes "run_episode ops ms episode s = (r, s')"
  shows "vars s' = vars s
     \<and> (\<exists>evs. trace s' = trace s @ Reset # evs
              @ (case r of Inl e \<Rightarrow> []
                 | Inr u \<Rightarrow> [LogDebug episode (foldl (+) 0 (step_rewards evs))])
          \<and> list_all episode_event evs
          \<and> filter (\<lambda>m. m \<noteq> MStep) (outline evs) = [])"
proof -
  obtain x s1 where c: "call Reset (env_reset ops) s = (x, s1)"
    by (cases "call Reset (env_reset ops) s")
  then have t1: "trace s1 = trace s @ [Reset]" "vars s1 = vars s"
    by (auto simp: call_def split: prod.splits)
  show ?thesis
  proof (cases x)
    case (Inl e)
    with c assms have "s' = s1" "r = Inl e"
      by (simp_all add: run_episode_def and_then_def)
    with t1 show ?thesis by simp
  next
    case (Inr ob)
    let ?v = "\<lparr>observation = ob, is_done = False, total_reward = 0, step = 0\<rparr>"
    obtain y s2 where l: "step_loop ops ms ?v s1 = (y, s2)"
      by (cases "step_loop ops ms ?v s1")
    from step_loop_shape [OF l]
    obtain evs where e: "trace s2 = trace s1 @ evs"
      "list_all episode_event evs"
      "filter (\<lambda>m. m \<noteq> MStep) (outline evs) = []"
      "\<forall>v'. y = Inr v' \<longrightarrow> total_reward v' = foldl (+) 0 (step_rewards evs)"
      by auto
    from step_loop_vars [OF l] t1 have v2: "vars s2 = vars s" by simp
    show ?thesis
    proof (cases y)
      case (Inl e)
      with c Inr l assms have "s' = s2" "r = Inl e"
        by (simp_all add: run_episode_def and_then_def)
      with t1 e v2 show ?thesis by auto
    next
      case yr: (Inr v')
      with c Inr l assms have "s' = emit (LogDebug episode (total_reward v')) s2" "r = Inr ()"
        by (simp_all add: run_episode_def and_then_def)
      with t1 e v2 yr show ?thesis by (auto simp: emit_def)
    qed
  qed
qed

lemma foldl_plus_sum_list: "foldl (+) (a::'r::monoid_add) xs = a + sum_list xs"
  by (induction xs arbitrary: a) (simp_all add: add.assoc)

text \<open>
  C1, as the code has it. In every episode with step limit \<open>L > 0\<close>, whether it ends
  or is cut short by an exception: \<open>env.step\<close> is called at most \<open>L\<close> times, at most \<open>L\<close>
  transitions reach \<open>agent.react\<close>, and the truncation flag of the \<open>i\<close>-th of them
  (from 1) is \<open>i = L\<close>: false before step \<open>L\<close>, true at step \<open>L\<close> whatever the done flag
  of that step.
\<close>

theorem truncation_flag_at_limit:
  assumes "0 < L" and "run_episode ops (Some L) episode s = (r, s')"
  shows "\<exists>evs. trace s' = trace s @ evs
      \<and> length (filter (\<lambda>m. m = MStep) (outline evs)) \<le> nat L
      \<and> length (react_flags evs) \<le> nat L
      \<and> (\<forall>i < length (react_flags evs). snd (react_flags evs ! i) = (int i + 1 = L))"
proof -
  obtain x s1 where c: "call Reset (env_reset ops) s = (x, s1)"
    by (cases "call Reset (env_reset ops) s")
  then have t1: "trace s1 = trace s @ [Reset]"
    by (auto simp: call_def split: prod.splits)
  show ?thesis
  proof (cases x)
    case (Inl e)
    with c assms(2) have "s' = s1"
      by (simp add: run_episode_def and_then_def)
    with t1 show ?thesis by simp
  next
    case (Inr ob)
    let ?v = "\<lparr>observation = ob, is_done = False, total_reward = 0, step = 0\<rparr>"
    obtain y s2 where l: "step_loop ops (Some L) ?v s1 = (y, s2)"
      by (cases "step_loop ops (Some L) ?v s1")
    from step_loop_flags [OF l] assms(1)
    obtain evs where e: "trace s2 = trace s1 @ evs"
      "filter (\<lambda>m. m \<noteq> MStep) (outline evs) = []"
      "length (outline evs) \<le> nat L"
      "length (react_flags evs) \<le> nat L"
      "\<forall>i < length (react_flags evs). snd (react_flags evs ! i) = (int i + 1 = L)"
      by auto
    have f: "length (filter (\<lambda>m. m = MStep) (outline evs)) \<le> nat L"
      using e(3) length_filter_le [of "\<lambda>m. m = MStep" "outline evs"] by linarith
    from c Inr l assms(2)
    have "trace s' = trace s2 \<or> (\<exists>v. trace s' = trace s2 @ [LogDebug episode v])"
      by (auto simp: run_episode_def and_then_def emit_def split: sum.splits)
    with t1 e f show ?thesis by auto
  qed
qed

theorem truncation_flag_at_limit_witness:
  "(0::int) < 10
   \<and> length (react_flags (trace (snd (run_episode (toy_ops 0) (Some 10) 1 (toy_state 1))))) = 10
   \<and> snd (react_flags (trace (snd (run_episode (toy_ops 0) (Some 10) 1 (toy_state 1)))) ! 9)"
proof -
  let ?run = "run_episode (toy_ops 0) (Some 10) 1 (toy_state 1)"
  have n: "length (react_flags (trace (snd ?run))) = 10"
    by code_simp
  have "?run = (fst ?run, snd ?run)" by simp
  from truncation_flag_at_limit [OF _ this]
  obtain evs where "trace (snd ?run) = trace (toy_state 1) @ evs"
    and "\<forall>i < length (react_flags evs). snd (react_flags evs ! i) = (int i + 1 = 10)"
    by auto
  moreover have "trace (toy_state 1) = []" by (simp add: toy_state_def)
  ultimately have "\<forall>i < length (react_flags (trace (snd ?run))).
      snd (react_flags (trace (snd ?run)) ! i) = (int i + 1 = 10)"
    by simp
  with n have "snd (react_flags (trace (snd ?run)) ! 9)" by simp
  with n show ?thesis by simp
qed

text \<open>
  C1 as stated fails: an environment that reports done at step 10 of an episode with
  step limit 10 gives a last transition with done and truncation both true.
\<close>

theorem truncation_flag_counterexample:
  "map_option (last \<circ> react_flags \<circ> trace \<circ> snd)
     (main 1 (toy_ops 10) ''CartPole-v0'' ''random'' 1 False None (SaveBool False) 0)
   = Some (True, True)"
  by code_simp




subsection \<open>The episode loop\<close>

lemma episode_loop_stop:
  "\<not> (v_episodes (vars s) = - 1 \<or> episode < v_episodes (vars s))
     \<Longrightarrow> episode_loop fuel ops ms episode s = Some (Inr (), episode, s)"
  by (subst episode_loop.simps) auto

lemma episode_loop_0:
  "v_episodes (vars s) = - 1 \<or> episode < v_episodes (vars s)
     \<Longrightarrow> episode_loop 0 ops ms episode s = None"
  by (subst episode_loop.simps) auto

lemma episode_loop_raise:
  "v_episodes (vars s) = - 1 \<or> episode < v_episodes (vars s)
     \<Longrightarrow> run_episode ops ms (episode + 1) s = (Inl e, s1)
     \<Longrightarrow> episode_loop (Suc n) ops ms episode s = Some (Inl e, episode + 1, s1)"
  by (subst episode_loop.simps) auto

lemma episode_loop_next:
  "v_episodes (vars s) = - 1 \<or> episode < v_episodes (vars s)
     \<Longrightarrow> run_episode ops ms (episode + 1) s = (Inr u, s1)
     \<Longrightarrow> episode_loop (Suc n) ops ms episode s = episode_loop n ops ms (episode + 1) s1"
  by (subst episode_loop.simps) auto

lemma episode_loop_frame:
  "episode_loop fuel ops ms episode s = Some (r, episode', s')
     \<Longrightarrow> vars s' = vars s \<and> episode \<le> episode'
        \<and> (\<exists>evs. trace s' = trace s @ evs \<and> list_all episode_event evs)"
proof (induction fuel arbitrary: episode s)
  case 0
  then show ?case
    by (cases "v_episodes (vars s) = - 1 \<or> episode < v_episodes (vars s)")
      (simp_all add: episode_loop_0 episode_loop_stop)
next
  case (Suc n)
  show ?case
  proof (cases "v_episodes (vars s) = - 1 \<or> episode < v_episodes (vars s)")
    case False
    with Suc.prems show ?thesis by (simp add: episode_loop_stop)
  next
    case True
    obtain x s1 where b: "run_episode ops ms (episode + 1) s = (x, s1)"
      by (cases "run_episode ops ms (episode + 1) s")
    from run_episode_shape [OF b] obtain evs1 where
      e1: "vars s1 = vars s" "trace s1 = trace s @ evs1" "list_all episode_event evs1"
      by (cases x) auto
    show ?thesis
    proof (cases x)
      case (Inl e)
      with True b Suc.prems e1 show ?thesis by (auto simp: episode_loop_raise)
    next
      case (Inr u)
      with True b Suc.prems have "episode_loop n ops ms (episode + 1) s1 = Some (r, episode', s')"
        by (simp add: episode_loop_next)
      from Suc.IH [OF this] e1 show ?thesis by auto
    qed
  qed
qed

lemma episode_loop_finite:
  "v_episodes (vars s) = N \<Longrightarrow> N \<noteq> - 1 \<Longrightarrow> nat (N - episode) \<le> fuel \<Longrightarrow>
     \<exists>r episode' s' evs. episode_loop fuel ops ms episode s = Some (r, episode', s')
        \<and> trace s' = trace s @ evs
        \<and> (r = Inr () \<longrightarrow> episode' = max episode N
              \<and> filter (\<lambda>m. m \<noteq> MStep) (outline evs)
                  = concat (map (\<lambda>k. [MReset, MLog k]) [episode + 1..N]))"
proof (induction fuel arbitrary: episode s)
  case 0
  then have "\<not> (v_episodes (vars s) = - 1 \<or> episode < v_episodes (vars s))" by auto
  then have "episode_loop 0 ops ms episode s = Some (Inr (), episode, s)"
    by (rule episode_loop_stop)
  with 0 show ?case by auto
next
  case (Suc n)
  show ?case
  proof (cases "episode < N")
    case False
    with Suc.prems have "\<not> (v_episodes (vars s) = - 1 \<or> episode < v_episodes (vars s))" by auto
    then have "episode_loop (Suc n) ops ms episode s = Some (Inr (), episode, s)"
      by (rule episode_loop_stop)
    with False show ?thesis by auto
  next
    case True
    with Suc.prems have c: "v_episodes (vars s) = - 1 \<or> episode < v_episodes (vars s)" by simp
    obtain x s1 where b: "run_episode ops ms (episode + 1) s = (x, s1)"
      by (cases "run_episode ops ms (episode + 1) s")
    show ?thesis
    proof (cases x)
      case (Inl e)
      with c b have "episode_loop (Suc n) ops ms episode s = Some (Inl e, episode + 1, s1)"
        by (simp add: episode_loop_raise)
      moreover from run_episode_shape [OF b] Inl obtain evs where "trace s1 = trace s @ evs"
        by auto
      ultimately show ?thesis by auto
    next
      case (Inr u)
      with c b have n: "episode_loop (Suc n) ops ms episode s = episode_loop n ops ms (episode + 1) s1"
        by (simp add: episode_loop_next)
      from run_episode_shape [OF b] Inr obtain evs1 where
        e1: "vars s1 = vars s" "trace s1 = trace s @ evs1"
          "filter (\<lambda>m. m \<noteq> MStep) (outline evs1) = [MReset, MLog (episode + 1)]"
        by auto
      from e1(1) Suc.prems have "v_episodes (vars s1) = N" by simp
      moreover from Suc.prems(3) True have "nat (N - (episode + 1)) \<le> n" by simp
      ultimately obtain r episode' s' evs where
        l: "episode_loop n ops ms (episode + 1) s1 = Some (r, episode', s')"
          "trace s' = trace s1 @ evs"
          "r = Inr () \<longrightarrow> episode' = max (episode + 1) N
              \<and> filter (\<lambda>m. m \<noteq> MStep) (outline evs)
                  = concat (map (\<lambda>k. [MReset, MLog k]) [episode + 1 + 1..N])"
        using Suc.IH [of s1 "episode + 1"] Suc.prems(2) by blast
      have u: "[episode + 1..N] = (episode + 1) # [episode + 1 + 1..N]"
        using True by (simp add: upto_rec1 [of "episode + 1" N])
      have "trace s' = trace s @ evs1 @ evs" using l(2) e1(2) by simp
      moreover have "r = Inr () \<longrightarrow> episode' = max episode N
              \<and> filter (\<lambda>m. m \<noteq> MStep) (outline (evs1 @ evs))
                  = concat (map (\<lambda>k. [MReset, MLog k]) [episode + 1..N])"
        using l(3) e1(3) True u by auto
      ultimately have "episode_loop (Suc n) ops ms episode s = Some (r, episode', s')
          \<and> trace s' = trace s @ (evs1 @ evs)
          \<and> (r = Inr () \<longrightarrow> episode' = max episode N
              \<and> filter (\<lambda>m. m \<noteq> MStep) (outline (evs1 @ evs))
                  = concat (map (\<lambda>k. [MReset, MLog k]) [episode + 1..N]))"
        using n l(1) by simp
      then show ?thesis by blast
    qed
  qed
qed


lemma returns_call:
  "returns f \<Longrightarrow> \<exists>v s'. call ev f s = (Inr v, s')"
  by (cases "f (world s)"; cases "fst (f (world s))")
    (auto simp: returns_def call_def dest: spec [of _ "world s"])

lemma step_body_quiet:
  assumes "quiet ops"
  shows "\<exists>v' s'. step_body ops ms v s = (Inr v', s')"
proof -
  have "\<exists>u s1. (if v_render (vars s) then call Render (env_render ops) else skip) s
      = (Inr u, s1)"
    using returns_call [of "env_render ops" Render s] assms
    by (cases "v_render (vars s)") (simp_all add: quiet_def skip_def)
  then obtain u s1 where 1: "(if v_render (vars s) then call Render (env_render ops) else skip) s
      = (Inr u, s1)"
    by blast
  from assms have "returns (agent_act ops (observation v))" by (simp add: quiet_def)
  from returns_call [OF this]
  obtain a s2 where 2: "call (Act (observation v)) (agent_act ops (observation v)) s1 = (Inr a, s2)"
    by blast
  from assms have "returns (env_step ops a)" by (simp add: quiet_def)
  then obtain ob' rew d s3 where 3: "call_step ops a s2 = (Inr (ob', rew, d), s3)"
    by (cases "env_step ops a (world s2)"; cases "fst (env_step ops a (world s2))")
      (auto simp: returns_def call_step_def dest: spec [of _ "world s2"])
  from assms
  have "returns (agent_react ops (observation v) a rew d ob' (py_eq (step v + 1) ms))"
    by (simp add: quiet_def)
  from returns_call [OF this]
  obtain u' s4 where 4: "call (React (observation v) a rew d ob' (py_eq (step v + 1) ms))
        (agent_react ops (observation v) a rew d ob' (py_eq (step v + 1) ms)) s3 = (Inr u', s4)"
    by blast
  from 1 2 3 4 show ?thesis
    by (simp add: step_body_def and_then_def Let_def)
qed

lemma step_loop_quiet:
  "quiet ops \<Longrightarrow> \<exists>v' s'. step_loop ops ms v s = (Inr v', s')"
proof (induction ops ms v s rule: step_loop.induct)
  case (1 ops ms v s)
  show ?case
  proof (cases "py_lt (step v) ms \<and> \<not> is_done v")
    case False
    then show ?thesis by (simp add: step_loop_stop)
  next
    case True
    from step_body_quiet [OF "1.prems"] obtain v1 s1 where
      b: "step_body ops ms v s = (Inr v1, s1)" by blast
    with True "1.IH" [of "Inr v1" s1 v1] "1.prems" show ?thesis
      by (simp add: step_loop_next)
  qed
qed

lemma run_episode_quiet:
  assumes "quiet ops"
  shows "\<exists>s'. run_episode ops ms episode s = (Inr (), s')"
proof -
  from assms have "returns (env_reset ops)" by (simp add: quiet_def)
  from returns_call [OF this]
  obtain ob s1 where 1: "call Reset (env_reset ops) s = (Inr ob, s1)"
    by blast
  obtain v' s2 where
    "step_loop ops ms \<lparr>observation = ob, is_done = False, total_reward = 0, step = 0\<rparr> s1
       = (Inr v', s2)"
    using step_loop_quiet [OF assms] by blast
  with 1 show ?thesis by (simp add: run_episode_def and_then_def)
qed

lemma episode_loop_quiet:
  "quiet ops \<Longrightarrow> episode_loop fuel ops ms episode s = Some (r, episode', s') \<Longrightarrow> r = Inr ()"
proof (induction fuel arbitrary: episode s)
  case 0
  then show ?case
    by (cases "v_episodes (vars s) = - 1 \<or> episode < v_episodes (vars s)")
      (simp_all add: episode_loop_0 episode_loop_stop)
next
  case (Suc n)
  show ?case
  proof (cases "v_episodes (vars s) = - 1 \<or> episode < v_episodes (vars s)")
    case False
    with Suc.prems show ?thesis by (simp add: episode_loop_stop)
  next
    case True
    from run_episode_quiet [OF Suc.prems(1)] obtain s1 where
      "run_episode ops ms (episode + 1) s = (Inr (), s1)" by blast
    with True Suc.prems(2) have "episode_loop n ops ms (episode + 1) s1 = Some (r, episode', s')"
      by (simp add: episode_loop_next)
    with Suc.IH Suc.prems(1) show ?thesis by blast
  qed
qed

lemma episode_loop_unbounded:
  "v_episodes (vars s) = - 1 \<Longrightarrow> episode_loop fuel ops ms episode s \<noteq> Some (Inr (), episode', s')"
proof (induction fuel arbitrary: episode s)
  case 0
  then show ?case by (simp add: episode_loop_0)
next
  case (Suc n)
  obtain x s1 where b: "run_episode ops ms (episode + 1) s = (x, s1)"
    by (cases "run_episode ops ms (episode + 1) s")
  show ?case
  proof (cases x)
    case (Inl e)
    with b Suc.prems show ?thesis by (simp add: episode_loop_raise)
  next
    case (Inr u)
    from run_episode_shape [OF b] Suc.prems have "v_episodes (vars s1) = - 1" by simp
    from Suc.IH [OF this] b Inr Suc.prems show ?thesis by (simp add: episode_loop_next)
  qed
qed

text \<open>
  C2. With a budget \<open>N \<ge> 0\<close> and fuel for \<open>N\<close> episodes the loop ends. When it ends
  without an exception it has run exactly \<open>N\<close> episodes: the resets and log lines of
  its trace are \<open>N\<close> pairs of a reset and the log line of episode \<open>k\<close>, for \<open>k\<close> from 1
  to \<open>N\<close>. When no call of a collaborator raises, it does end without an exception.
  With the budget \<open>-1\<close> the loop never leaves through its condition, whatever the
  fuel and the episode count; when no call raises it does not end at all.
\<close>

theorem episode_budget:
  assumes "v_episodes (vars s) = N"
  shows "(0 \<le> N \<and> nat N \<le> fuel \<longrightarrow>
           (\<exists>r episode s' evs. episode_loop fuel ops ms 0 s = Some (r, episode, s')
              \<and> trace s' = trace s @ evs
              \<and> (r = Inr () \<longrightarrow> episode = N
                    \<and> filter (\<lambda>m. m \<noteq> MStep) (outline evs)
                        = concat (map (\<lambda>k. [MReset, MLog k]) [1..N]))
              \<and> (quiet ops \<longrightarrow> r = Inr ())))
       \<and> (N = - 1 \<longrightarrow>
           (\<forall>episode' s'. episode_loop fuel ops ms episode s \<noteq> Some (Inr (), episode', s'))
           \<and> (quiet ops \<longrightarrow> episode_loop fuel ops ms episode s = None))"
proof (intro conjI impI)
  assume a: "0 \<le> N \<and> nat N \<le> fuel"
  then have "N \<noteq> - 1" "nat (N - 0) \<le> fuel" by simp_all
  from episode_loop_finite [OF assms this, of ops ms]
  obtain r episode s' evs where l: "episode_loop fuel ops ms 0 s = Some (r, episode, s')"
    "trace s' = trace s @ evs"
    "r = Inr () \<longrightarrow> episode = max 0 N
        \<and> filter (\<lambda>m. m \<noteq> MStep) (outline evs)
            = concat (map (\<lambda>k. [MReset, MLog k]) [0 + 1..N])"
    by blast
  from l(3) a have "r = Inr () \<longrightarrow> episode = N
        \<and> filter (\<lambda>m. m \<noteq> MStep) (outline evs)
            = concat (map (\<lambda>k. [MReset, MLog k]) [1..N])"
    by simp
  moreover have "quiet ops \<longrightarrow> r = Inr ()"
    using episode_loop_quiet [OF _ l(1)] by simp
  ultimately show "\<exists>r episode s' evs. episode_loop fuel ops ms 0 s = Some (r, episode, s')
              \<and> trace s' = trace s @ evs
              \<and> (r = Inr () \<longrightarrow> episode = N
                    \<and> filter (\<lambda>m. m \<noteq> MStep) (outline evs)
                        = concat (map (\<lambda>k. [MReset, MLog k]) [1..N]))
              \<and> (quiet ops \<longrightarrow> r = Inr ())"
    using l(1,2) by blast
next
  assume "N = - 1"
  with assms show "\<forall>episode' s'. episode_loop fuel ops ms episode s \<noteq> Some (Inr (), episode', s')"
    by (simp add: episode_loop_unbounded)
next
  assume n: "N = - 1" and q: "quiet ops"
  show "episode_loop fuel ops ms episode s = None"
  proof (cases "episode_loop fuel ops ms episode s")
    case None
    then show ?thesis .
  next
    case (Some x)
    obtain r episode' s' where "x = (r, episode', s')" by (cases x)
    with Some episode_loop_quiet [OF q, of fuel ms episode s r episode' s']
      episode_loop_unbounded [of s fuel ops ms episode episode' s'] n assms
    show ?thesis by simp
  qed
qed

lemma toy_quiet: "quiet (toy_ops k)"
  by (simp add: quiet_def returns_def toy_ops_def)

theorem episode_budget_witness:
  "v_episodes (vars (toy_state 3)) = 3
   \<and> map_option fst (episode_loop 3 (toy_ops 5) (Some 10) 0 (toy_state 3)) = Some (Inr ())
   \<and> map_option (fst \<circ> snd) (episode_loop 3 (toy_ops 5) (Some 10) 0 (toy_state 3)) = Some 3
   \<and> v_episodes (vars (toy_state (- 1))) = - 1
   \<and> episode_loop 7 (toy_ops 5) (Some 10) 0 (toy_state (- 1)) = None"
proof -
  have a: "v_episodes (vars (toy_state 3)) = 3" and b: "v_episodes (vars (toy_state (- 1))) = - 1"
    by (simp_all add: toy_state_def)
  from episode_budget [OF a, of 3 "toy_ops 5" "Some 10" 0] toy_quiet [of 5]
  have "map_option fst (episode_loop 3 (toy_ops 5) (Some 10) 0 (toy_state 3)) = Some (Inr ())"
    "map_option (fst \<circ> snd) (episode_loop 3 (toy_ops 5) (Some 10) 0 (toy_state 3)) = Some 3"
    by auto
  moreover from episode_budget [OF b, of 7 "toy_ops 5" "Some 10" 0] toy_quiet [of 5]
  have "episode_loop 7 (toy_ops 5) (Some 10) 0 (toy_state (- 1)) = None"
    by simp
  ultimately show ?thesis using a b by simp
qed

subsection \<open>Start-up, handlers and finalization\<close>

lemma no_episode_events:
  "filter episode_event evs = [] \<Longrightarrow> outline evs = [] \<and> react_flags evs = [] \<and> step_rewards evs = []"
  by (induction evs rule: outline.induct) (auto split: if_splits)

lemma episode_events_only:
  "list_all episode_event evs \<Longrightarrow>
     filter fs_event evs = [] \<and> prompts evs = [] \<and> saves evs = [] \<and> filter agent_event evs = []"
  by (induction evs rule: outline.induct) auto

lemma prepare_shape:
  assumes "prepare ops rp s = (r, s')"
  shows "vars s' = vars s
     \<and> (r = Inr () \<longrightarrow> v_seed (vars s) = None)
     \<and> (\<exists>evs. trace s' = trace s @ evs
          \<and> filter episode_event evs = [] \<and> filter agent_event evs = []
          \<and> prompts evs = [] \<and> saves evs = []
          \<and> filter fs_event evs = (if is_True (v_save (vars s)) then [MakeDirs rp] else []))"
  using assms
  by (auto simp: prepare_def and_then_def call_def skip_def seeding_def load_global_def
      module_globals_def builtins_used_def
      split: prod.splits sum.splits option.splits if_splits)

lemma construct_agent_shape:
  assumes "construct_agent ops nm rp s = (r, s')"
  shows "trace s' = trace s @ [NewAgent nm rp]
     \<and> vars s' = (case r of Inl e \<Rightarrow> vars s | Inr u \<Rightarrow> (vars s)\<lparr>v_agent := AgentObject\<rparr>)
     \<and> (\<forall>e. r = Inl e \<longrightarrow> fst (new_agent ops nm rp (world s)) = Inl e)"
  using assms
  by (auto simp: construct_agent_def and_then_def call_def split: prod.splits sum.splits)

lemma handlers_shape:
  assumes "handlers r episode s = (pending, s')"
  shows "vars s' = vars s
     \<and> (\<exists>evs. trace s' = trace s @ evs
          \<and> filter episode_event evs = [] \<and> filter agent_event evs = []
          \<and> prompts evs = [] \<and> saves evs = [] \<and> filter fs_event evs = [])"
  using assms
  by (cases "(r, episode, s)" rule: handlers.cases) (auto simp: emit_def)

lemma finalize_shape:
  assumes "finalize ops rp s = (r, s')"
  shows "(vars s' = vars s
          \<or> v_save (vars s) = SaveNone \<and> vars s' = (vars s)\<lparr>v_save := SaveBool True\<rparr>)
     \<and> (\<exists>fin. trace s' = trace s @ fin
          \<and> fin = map RawInput (prompts fin) @ map Save (saves fin)
          \<and> filter episode_event fin = [] \<and> filter agent_event fin = []
          \<and> filter fs_event fin = map Save (saves fin)
          \<and> prompts fin = (if v_save (vars s) = SaveNone then [''Save agent? ''] else [])
          \<and> saves fin = (if truthy (v_save (vars s'))
                         then [os_path_join rp [''final.pkl'']] else []))"
  using assms
  by (auto simp: finalize_def ask_save_def and_then_def call_def skip_def
      split: prod.splits sum.splits if_splits)


lemma startup_Inr:
  assumes "startup ops game agent episodes render seed save w = Inr (rp, ms, s)"
  shows "rp = os_path_join ''results'' [agent, game, time_strftime ops w]
     \<and> vars s = \<lparr>v_game = game, v_agent = AgentObject, v_episodes = episodes,
                   v_render = render, v_seed = seed, v_save = save\<rparr>
     \<and> seed = None
     \<and> (\<exists>w1. fst (new_agent ops agent rp w1) = Inr ())
     \<and> filter episode_event (trace s) = [] \<and> prompts (trace s) = [] \<and> saves (trace s) = []
     \<and> filter fs_event (trace s) = (if is_True save then [MakeDirs rp] else [])"
proof -
  let ?s0 = "\<lparr>world = w, trace = [],
                vars = \<lparr>v_game = game, v_agent = AgentName agent, v_episodes = episodes,
                        v_render = render, v_seed = seed, v_save = save\<rparr>\<rparr>"
  let ?rp = "os_path_join ''results'' [agent, game, time_strftime ops w]"
  obtain x s1 where p: "prepare ops ?rp ?s0 = (x, s1)" by (cases "prepare ops ?rp ?s0")
  obtain y s2 where c: "construct_agent ops agent ?rp s1 = (y, s2)"
    by (cases "construct_agent ops agent ?rp s1")
  from assms p c have r: "x = Inr ()" "y = Inr ()" "rp = ?rp" "s = s2"
    by (auto simp: startup_def Let_def split: sum.splits if_splits)
  from c r have "fst (new_agent ops agent ?rp (world s1)) = Inr ()"
    by (auto simp: construct_agent_def and_then_def call_def split: prod.splits sum.splits)
  with prepare_shape [OF p] construct_agent_shape [OF c] r show ?thesis
    by auto
qed

lemma startup_Inl:
  assumes "startup ops game agent episodes render seed save w = Inl (res, s)"
  shows "vars s = \<lparr>v_game = game, v_agent = AgentName agent, v_episodes = episodes,
                   v_render = render, v_seed = seed, v_save = save\<rparr>
     \<and> filter episode_event (trace s) = [] \<and> prompts (trace s) = [] \<and> saves (trace s) = []
     \<and> filter fs_event (trace s)
          = (if is_True save
             then [MakeDirs (os_path_join ''results'' [agent, game, time_strftime ops w])] else [])
     \<and> ((\<exists>e. res = Uncaught e \<and> filter agent_event (trace s) = [])
          \<or> (\<exists>e w1. fst (new_agent ops agent
                    (os_path_join ''results'' [agent, game, time_strftime ops w]) w1) = Inl e
                \<and> res = (if e = IncompatibleGameError then Returned_None else Uncaught e)))"
proof -
  let ?s0 = "\<lparr>world = w, trace = [],
                vars = \<lparr>v_game = game, v_agent = AgentName agent, v_episodes = episodes,
                        v_render = render, v_seed = seed, v_save = save\<rparr>\<rparr>"
  let ?rp = "os_path_join ''results'' [agent, game, time_strftime ops w]"
  obtain x s1 where p: "prepare ops ?rp ?s0 = (x, s1)" by (cases "prepare ops ?rp ?s0")
  show ?thesis
  proof (cases x)
    case (Inl e)
    with assms p have "res = Uncaught e" "s = s1"
      by (auto simp: startup_def Let_def)
    with prepare_shape [OF p] show ?thesis by auto
  next
    case (Inr u)
    obtain y s2 where c: "construct_agent ops agent ?rp s1 = (y, s2)"
      by (cases "construct_agent ops agent ?rp s1")
    with assms p Inr obtain e where y: "y = Inl e"
      by (cases y) (auto simp: startup_def Let_def)
    with assms p Inr c
    have r: "res = (if e = IncompatibleGameError then Returned_None else Uncaught e)"
      "s = (if e = IncompatibleGameError then emit (LogErrorExn e) s2 else s2)"
      by (auto simp: startup_def Let_def split: if_splits)
    from construct_agent_shape [OF c] y
    have "fst (new_agent ops agent ?rp (world s1)) = Inl e" by simp
    with prepare_shape [OF p] construct_agent_shape [OF c] y r show ?thesis
      by (auto simp: emit_def)
  qed
qed

lemma try_loop_Some:
  assumes "try_loop fuel ops rp ms s = Some (res, s')"
  shows "\<exists>r episode s1 pending s2 fr.
      episode_loop fuel ops ms 0 s = Some (r, episode, s1)
      \<and> handlers r episode s1 = (pending, s2)
      \<and> finalize ops rp s2 = (fr, s')
      \<and> res = (case fr of Inl e \<Rightarrow> Uncaught e
                 | Inr u \<Rightarrow> (case pending of None \<Rightarrow> Returned_Agent | Some e \<Rightarrow> Uncaught e))"
  using assms
  by (auto simp: try_loop_def split: option.splits prod.splits sum.splits)

lemma try_loop_shape:
  assumes "try_loop fuel ops rp ms s = Some (res, s')"
  shows "(vars s' = vars s
          \<or> v_save (vars s) = SaveNone \<and> vars s' = (vars s)\<lparr>v_save := SaveBool True\<rparr>)
     \<and> (\<exists>evs. trace s' = trace s @ evs
          \<and> filter agent_event evs = []
          \<and> prompts evs = (if v_save (vars s) = SaveNone then [''Save agent? ''] else [])
          \<and> saves evs = (if truthy (v_save (vars s')) then [os_path_join rp [''final.pkl'']] else [])
          \<and> filter fs_event evs = map Save (saves evs))"
proof -
  from try_loop_Some [OF assms] obtain r episode s1 pending s2 fr where
    l: "episode_loop fuel ops ms 0 s = Some (r, episode, s1)"
    and h: "handlers r episode s1 = (pending, s2)"
    and f: "finalize ops rp s2 = (fr, s')"
    by blast
  from episode_loop_frame [OF l] obtain evs1 where
    1: "vars s1 = vars s" "trace s1 = trace s @ evs1" "list_all episode_event evs1"
    by blast
  from handlers_shape [OF h] obtain evs2 where
    2: "vars s2 = vars s1" "trace s2 = trace s1 @ evs2" "filter agent_event evs2 = []"
      "prompts evs2 = []" "saves evs2 = []" "filter fs_event evs2 = []"
    by blast
  from finalize_shape [OF f] obtain fin where
    3: "vars s' = vars s2
          \<or> v_save (vars s2) = SaveNone \<and> vars s' = (vars s2)\<lparr>v_save := SaveBool True\<rparr>"
      "trace s' = trace s2 @ fin"
      "filter agent_event fin = []" "filter fs_event fin = map Save (saves fin)"
      "prompts fin = (if v_save (vars s2) = SaveNone then [''Save agent? ''] else [])"
      "saves fin = (if truthy (v_save (vars s')) then [os_path_join rp [''final.pkl'']] else [])"
    by blast
  from episode_events_only [OF 1(3)] have
    5: "filter fs_event evs1 = []" "prompts evs1 = []" "saves evs1 = []"
      "filter agent_event evs1 = []"
    by simp_all
  have "trace s' = trace s @ (evs1 @ evs2 @ fin)" using 1(2) 2(2) 3(2) by simp
  moreover have "filter agent_event (evs1 @ evs2 @ fin) = []" using 5 2 3 by simp
  moreover have "prompts (evs1 @ evs2 @ fin)
      = (if v_save (vars s) = SaveNone then [''Save agent? ''] else [])"
    using 5 2 3(5) 1(1) by simp
  moreover have "saves (evs1 @ evs2 @ fin)
      = (if truthy (v_save (vars s')) then [os_path_join rp [''final.pkl'']] else [])"
    using 5 2 3(6) by simp
  moreover have "filter fs_event (evs1 @ evs2 @ fin) = map Save (saves (evs1 @ evs2 @ fin))"
    using 5 2 3(4) by simp
  moreover have "vars s' = vars s
          \<or> v_save (vars s) = SaveNone \<and> vars s' = (vars s)\<lparr>v_save := SaveBool True\<rparr>"
    using 3(1) 2(1) 1(1) by simp
  ultimately show ?thesis by blast
qed

subsection \<open>The run as a whole\<close>

lemma finalize_vars:
  assumes "finalize ops rp s = (fr, s')"
  shows "vars s' = (vars s)\<lparr>v_save :=
      (if v_save (vars s) = SaveNone
          \<and> (\<exists>yn w2. raw_input ops ''Save agent? '' (world s) = (Inr yn, w2)
                \<and> str_lower yn = ''y'')
       then SaveBool True else v_save (vars s))\<rparr>"
  using assms
  by (auto simp: finalize_def ask_save_def and_then_def call_def skip_def
      split: prod.splits sum.splits if_splits)

text \<open>
  C7, as the code has it. Whatever the run does, at its end the variables \<open>game\<close>,
  \<open>episodes\<close>, \<open>render\<close> and \<open>seed\<close> hold the values \<open>main\<close> was called with. Two
  variables of the configuration are assigned to. \<open>agent\<close> holds the agent object
  once the agent is constructed (line 83, before the loop; the name stays in
  \<open>agent_name\<close>): a run that ends during start-up leaves the name in it, and a run
  that enters the loop enters it with the object. \<open>save\<close> is untouched by start-up,
  by the loop and by the handlers, and the \<open>finally\<close> block (line 147) makes it
  \<open>True\<close> exactly when it was \<open>None\<close> and the prompt, called in the state the
  handlers left, returns an answer that lower-cases to \<open>y\<close>; otherwise \<open>save\<close> keeps
  its value.
\<close>

theorem run_configuration_frame:
  assumes "main fuel ops game agent episodes render seed save w = Some (res, s')"
  shows "v_game (vars s') = game \<and> v_episodes (vars s') = episodes
     \<and> v_render (vars s') = render \<and> v_seed (vars s') = seed
     \<and> (v_agent (vars s') = AgentName agent \<or> v_agent (vars s') = AgentObject)
     \<and> (v_save (vars s') = save
          \<or> save = SaveNone \<and> v_save (vars s') = SaveBool True
             \<and> prompts (trace s') = [''Save agent? ''])
     \<and> (\<forall>early. startup ops game agent episodes render seed save w = Inl early
           \<longrightarrow> v_agent (vars s') = AgentName agent \<and> v_save (vars s') = save)
     \<and> (\<forall>rp ms s. startup ops game agent episodes render seed save w = Inr (rp, ms, s)
           \<longrightarrow> vars s = \<lparr>v_game = game, v_agent = AgentObject, v_episodes = episodes,
                          v_render = render, v_seed = seed, v_save = save\<rparr>
             \<and> (\<forall>r episode s1. episode_loop fuel ops ms 0 s = Some (r, episode, s1)
                    \<longrightarrow> vars s1 = vars s
                      \<and> (\<forall>pending s2. handlers r episode s1 = (pending, s2)
                            \<longrightarrow> vars s2 = vars s
                              \<and> vars s' = (vars s)\<lparr>v_save :=
                                   (if save = SaveNone
                                       \<and> (\<exists>yn w2. raw_input ops ''Save agent? '' (world s2)
                                                     = (Inr yn, w2)
                                             \<and> str_lower yn = ''y'')
                                    then SaveBool True else save)\<rparr>)))"
proof -
  have 1: "v_game (vars s') = game \<and> v_episodes (vars s') = episodes
     \<and> v_render (vars s') = render \<and> v_seed (vars s') = seed
     \<and> (v_agent (vars s') = AgentName agent \<or> v_agent (vars s') = AgentObject)
     \<and> (v_save (vars s') = save
          \<or> save = SaveNone \<and> v_save (vars s') = SaveBool True
             \<and> prompts (trace s') = [''Save agent? ''])"
  proof (cases "startup ops game agent episodes render seed save w")
    case (Inl early)
    with assms have "startup ops game agent episodes render seed save w = Inl (res, s')"
      by (simp add: main_def)
    from startup_Inl [OF this] show ?thesis by simp
  next
    case (Inr x)
    obtain rp ms s where x: "x = (rp, ms, s)" by (cases x)
    with Inr assms have t: "try_loop fuel ops rp ms s = Some (res, s')"
      by (simp add: main_def)
    from Inr x have "startup ops game agent episodes render seed save w = Inr (rp, ms, s)"
      by simp
    from startup_Inr [OF this] try_loop_shape [OF t] show ?thesis
      by auto
  qed
  have 2: "v_agent (vars s') = AgentName agent \<and> v_save (vars s') = save"
    if st: "startup ops game agent episodes render seed save w = Inl early" for early
  proof -
    from st assms have "startup ops game agent episodes render seed save w = Inl (res, s')"
      by (simp add: main_def)
    from startup_Inl [OF this] show ?thesis by simp
  qed
  have 3: "vars s = \<lparr>v_game = game, v_agent = AgentObject, v_episodes = episodes,
                     v_render = render, v_seed = seed, v_save = save\<rparr>
      \<and> (\<forall>r episode s1. episode_loop fuel ops ms 0 s = Some (r, episode, s1)
             \<longrightarrow> vars s1 = vars s
               \<and> (\<forall>pending s2. handlers r episode s1 = (pending, s2)
                     \<longrightarrow> vars s2 = vars s
                       \<and> vars s' = (vars s)\<lparr>v_save :=
                            (if save = SaveNone
                                \<and> (\<exists>yn w2. raw_input ops ''Save agent? '' (world s2)
                                              = (Inr yn, w2)
                                      \<and> str_lower yn = ''y'')
                             then SaveBool True else save)\<rparr>))"
    if st: "startup ops game agent episodes render seed save w = Inr (rp, ms, s)" for rp ms s
  proof -
    note i = startup_Inr [OF st]
    from st assms have t: "try_loop fuel ops rp ms s = Some (res, s')"
      by (simp add: main_def)
    have "vars s1 = vars s
        \<and> (\<forall>pending s2. handlers r episode s1 = (pending, s2)
              \<longrightarrow> vars s2 = vars s
                \<and> vars s' = (vars s)\<lparr>v_save :=
                     (if save = SaveNone
                         \<and> (\<exists>yn w2. raw_input ops ''Save agent? '' (world s2) = (Inr yn, w2)
                               \<and> str_lower yn = ''y'')
                      then SaveBool True else save)\<rparr>)"
      if l: "episode_loop fuel ops ms 0 s = Some (r, episode, s1)" for r episode s1
    proof -
      from episode_loop_frame [OF l] have v1: "vars s1 = vars s" by simp
      have "vars s2 = vars s
          \<and> vars s' = (vars s)\<lparr>v_save :=
               (if save = SaveNone
                   \<and> (\<exists>yn w2. raw_input ops ''Save agent? '' (world s2) = (Inr yn, w2)
                         \<and> str_lower yn = ''y'')
                then SaveBool True else save)\<rparr>"
        if h: "handlers r episode s1 = (pending, s2)" for pending s2
      proof -
        from handlers_shape [OF h] v1 have v2: "vars s2 = vars s" by simp
        obtain fr s3 where f: "finalize ops rp s2 = (fr, s3)" by (cases "finalize ops rp s2")
        with t l h have "s' = s3"
          by (auto simp: try_loop_def split: sum.splits)
        with finalize_vars [OF f] v2 i show ?thesis by simp
      qed
      with v1 show ?thesis by blast
    qed
    with i show ?thesis by blast
  qed
  from 1 2 3 show ?thesis by blast
qed

theorem run_configuration_frame_witness:
  "map_option (vars \<circ> snd)
     (main 1 declining_ops ''CartPole-v0'' ''random'' 1 False None SaveNone 0)
     = Some \<lparr>v_game = ''CartPole-v0'', v_agent = AgentObject, v_episodes = 1,
             v_render = False, v_seed = None, v_save = SaveNone\<rparr>"
proof -
  let ?m = "main 1 declining_ops ''CartPole-v0'' ''random'' 1 False None SaveNone 0"
  let ?rp = "''results/random/CartPole-v0/17-03-05-10-20-30''"
  let ?s = "\<lparr>world = 0::nat, trace = [GymMake ''CartPole-v0'', NewAgent ''random'' ?rp],
             vars = \<lparr>v_game = ''CartPole-v0'', v_agent = AgentObject, v_episodes = 1,
                     v_render = False, v_seed = None, v_save = SaveNone\<rparr>\<rparr>"
  let ?l = "episode_loop 1 declining_ops (Some 10) 0 ?s"
  have a: "?m = Some (Returned_Agent, snd (the ?m))"
    by code_simp
  have b: "startup declining_ops ''CartPole-v0'' ''random'' 1 False None SaveNone (0::nat)
      = Inr (?rp, Some 10, ?s)"
    by code_simp
  have "?l = Some (Inr (), 1, snd (snd (the ?l)))"
    by code_simp
  then obtain s1 where c: "?l = Some (Inr (), 1, s1)" ..
  have d: "handlers (Inr ()) 1 s1 = (None, s1)"
    by simp
  have e: "str_lower ''n'' \<noteq> ''y''"
    by code_simp
  note th = run_configuration_frame [OF a]
  note th8 = th [THEN conjunct2, THEN conjunct2, THEN conjunct2, THEN conjunct2,
      THEN conjunct2, THEN conjunct2, THEN conjunct2, rule_format, OF b]
  note thl = th8 [THEN conjunct2, rule_format, OF c]
  note thh = thl [THEN conjunct2, rule_format, OF d]
  from thh e have "vars (snd (the ?m)) = vars ?s"
    by (auto simp: declining_ops_def)
  with a show ?thesis by (metis comp_apply option.simps(9) snd_conv st.select_convs(3))
qed


text \<open>
  C7 as stated fails: with \<open>save = None\<close> and an operator who answers \<open>Y\<close>, the run
  ends with \<open>save\<close> bound to \<open>True\<close>.
\<close>

theorem run_configuration_counterexample:
  "map_option (v_save \<circ> vars \<circ> snd)
     (main 1 (toy_ops 5) ''CartPole-v0'' ''random'' 1 False None SaveNone 0)
   = Some (SaveBool True)"
  by code_simp






lemma prepare_Inr:
  assumes "prepare ops rp s = (Inr u, s')"
  shows "vars s' = vars s \<and> v_seed (vars s) = None
     \<and> trace s' = trace s @ (if is_True (v_save (vars s)) then [MakeDirs rp] else [])
          @ [GymMake (v_game (vars s))]"
  using assms
  by (auto simp: prepare_def and_then_def call_def skip_def seeding_def load_global_def
      module_globals_def builtins_used_def
      split: prod.splits sum.splits option.splits if_splits)

text \<open>
  C3, as the code has it. Take a run whose start-up reaches the constructor (lines
  64 to 77 return, in the state \<open>s1\<close>) and whose constructor, called in that state,
  raises the incompatibility error. Then \<open>main\<close> returns \<open>None\<close> for every fuel, and
  the trace of the run is known in full: \<open>os.makedirs\<close> when \<open>save is True\<close>, then
  \<open>gym.make\<close>, the constructor and the error log. So no episode event occurs and
  \<open>agent.save\<close> is never called, but the results directory is created when \<open>save\<close>
  is \<open>True\<close>, before the agent is constructed.
\<close>

theorem incompatible_agent_aborts:
  assumes "prepare ops (os_path_join ''results'' [agent, game, time_strftime ops w])
             \<lparr>world = w, trace = [],
              vars = \<lparr>v_game = game, v_agent = AgentName agent, v_episodes = episodes,
                      v_render = render, v_seed = seed, v_save = save\<rparr>\<rparr>
           = (Inr (), s1)"
    and "fst (new_agent ops agent (os_path_join ''results'' [agent, game, time_strftime ops w])
               (world s1)) = Inl IncompatibleGameError"
  shows "\<exists>s'. main fuel ops game agent episodes render seed save w = Some (Returned_None, s')
     \<and> trace s'
         = (if is_True save
            then [MakeDirs (os_path_join ''results'' [agent, game, time_strftime ops w])]
            else [])
           @ [GymMake game,
              NewAgent agent (os_path_join ''results'' [agent, game, time_strftime ops w]),
              LogErrorExn IncompatibleGameError]
     \<and> filter episode_event (trace s') = []
     \<and> saves (trace s') = []
     \<and> filter fs_event (trace s')
          = (if is_True save
             then [MakeDirs (os_path_join ''results'' [agent, game, time_strftime ops w])]
             else [])"
proof -
  let ?rp = "os_path_join ''results'' [agent, game, time_strftime ops w]"
  obtain y s2 where c: "construct_agent ops agent ?rp s1 = (y, s2)"
    by (cases "construct_agent ops agent ?rp s1")
  with assms(2) have y: "y = Inl IncompatibleGameError"
    by (auto simp: construct_agent_def and_then_def call_def split: prod.splits sum.splits)
  from assms(1) c y
  have m: "main fuel ops game agent episodes render seed save w
      = Some (Returned_None, emit (LogErrorExn IncompatibleGameError) s2)"
    by (simp add: main_def startup_def Let_def)
  from prepare_Inr [OF assms(1)] construct_agent_shape [OF c]
  have t: "trace (emit (LogErrorExn IncompatibleGameError) s2)
      = (if is_True save then [MakeDirs ?rp] else [])
        @ [GymMake game, NewAgent agent ?rp, LogErrorExn IncompatibleGameError]"
    by (simp add: emit_def)
  from m t show ?thesis by (cases "is_True save") simp_all
qed

theorem incompatible_agent_aborts_witness:
  "map_option (\<lambda>(res, s). (res, trace s))
     (main 3 incompatible_ops ''CartPole-v0'' ''random'' 3 False None (SaveBool True) 0)
   = Some (Returned_None,
       [MakeDirs ''results/random/CartPole-v0/17-03-05-10-20-30'',
        GymMake ''CartPole-v0'',
        NewAgent ''random'' ''results/random/CartPole-v0/17-03-05-10-20-30'',
        LogErrorExn IncompatibleGameError])"
proof -
  let ?rp = "os_path_join ''results'' [''random'', ''CartPole-v0'', time_strftime incompatible_ops 0]"
  let ?s0 = "\<lparr>world = 0::nat, trace = [],
              vars = \<lparr>v_game = ''CartPole-v0'', v_agent = AgentName ''random'', v_episodes = 3,
                      v_render = False, v_seed = None, v_save = SaveBool True\<rparr>\<rparr>"
  have rp: "?rp = ''results/random/CartPole-v0/17-03-05-10-20-30''"
    by code_simp
  have a: "prepare incompatible_ops ?rp ?s0 = (Inr (), snd (prepare incompatible_ops ?rp ?s0))"
    by code_simp
  have b: "fst (new_agent incompatible_ops ''random'' ?rp
      (world (snd (prepare incompatible_ops ?rp ?s0)))) = Inl IncompatibleGameError"
    by (simp add: incompatible_ops_def)
  from incompatible_agent_aborts [OF a b, of 3] rp
  show ?thesis by auto
qed


text \<open>
  C3 as stated fails: with \<open>save = True\<close> the run has created its results directory
  by the time the constructor raises.
\<close>

theorem incompatible_agent_counterexample:
  "map_option (\<lambda>(res, s). (res, filter fs_event (trace s)))
     (main 3 incompatible_ops ''CartPole-v0'' ''random'' 3 False None (SaveBool True) 0)
   = Some (Returned_None, [MakeDirs ''results/random/CartPole-v0/17-03-05-10-20-30''])"
  by code_simp

text \<open>
  C9. With \<open>episodes < -1\<close> the run ends for every fuel, also none, and its trace has
  no episode event. Once start-up is through, the loop leaves at once through its
  condition with \<open>episode = 0\<close> and the state untouched, no handler runs, and the
  result of \<open>main\<close> is that of the \<open>finally\<close> block run on that state.
\<close>

theorem episodes_below_minus_one:
  assumes "episodes < - 1"
  shows "(\<exists>res s'. main fuel ops game agent episodes render seed save w = Some (res, s')
            \<and> filter episode_event (trace s') = [])
     \<and> (\<forall>rp ms s. startup ops game agent episodes render seed save w = Inr (rp, ms, s)
            \<longrightarrow> episode_loop fuel ops ms 0 s = Some (Inr (), 0, s)
              \<and> main fuel ops game agent episodes render seed save w
                  = Some (case finalize ops rp s of
                            (Inl e, s2) \<Rightarrow> (Uncaught e, s2)
                          | (Inr u, s2) \<Rightarrow> (Returned_Agent, s2)))"
proof -
  have 2: "episode_loop fuel ops ms 0 s = Some (Inr (), 0, s)
              \<and> main fuel ops game agent episodes render seed save w
                  = Some (case finalize ops rp s of
                            (Inl e, s2) \<Rightarrow> (Uncaught e, s2)
                          | (Inr u, s2) \<Rightarrow> (Returned_Agent, s2))"
    if st: "startup ops game agent episodes render seed save w = Inr (rp, ms, s)" for rp ms s
  proof -
    from startup_Inr [OF st] assms
    have "\<not> (v_episodes (vars s) = - 1 \<or> 0 < v_episodes (vars s))" by simp
    then have l: "episode_loop fuel ops ms 0 s = Some (Inr (), 0, s)"
      by (rule episode_loop_stop)
    with st show ?thesis
      by (auto simp: main_def try_loop_def split: prod.splits sum.splits)
  qed
  have 1: "\<exists>res s'. main fuel ops game agent episodes render seed save w = Some (res, s')
            \<and> filter episode_event (trace s') = []"
  proof (cases "startup ops game agent episodes render seed save w")
    case (Inl early)
    obtain res s' where e: "early = (res, s')" by (cases early)
    with Inl have m: "main fuel ops game agent episodes render seed save w = Some (res, s')"
      by (simp add: main_def)
    from Inl e have "startup ops game agent episodes render seed save w = Inl (res, s')" by simp
    from startup_Inl [OF this] m show ?thesis by auto
  next
    case (Inr x)
    obtain rp ms s where x: "x = (rp, ms, s)" by (cases x)
    with Inr have st: "startup ops game agent episodes render seed save w = Inr (rp, ms, s)"
      by simp
    obtain fr s2 where f: "finalize ops rp s = (fr, s2)" by (cases "finalize ops rp s")
    from finalize_shape [OF f] startup_Inr [OF st]
    have "filter episode_event (trace s2) = []" by auto
    with 2 [OF st] f show ?thesis by (cases fr) auto
  qed
  from 1 2 show ?thesis by blast
qed


theorem episodes_below_minus_one_witness:
  "(- 2 :: int) < - 1
   \<and> map_option (\<lambda>(res, s). (res, trace s))
        (main 0 (toy_ops 5) ''CartPole-v0'' ''random'' (- 2) False None (SaveInt 1) 0)
     = Some (Returned_Agent,
         [GymMake ''CartPole-v0'',
          NewAgent ''random'' ''results/random/CartPole-v0/17-03-05-10-20-30'',
          Save ''results/random/CartPole-v0/17-03-05-10-20-30/final.pkl''])"
proof -
  let ?rp = "''results/random/CartPole-v0/17-03-05-10-20-30''"
  let ?s = "\<lparr>world = 0, trace = [GymMake ''CartPole-v0'', NewAgent ''random'' ?rp],
             vars = \<lparr>v_game = ''CartPole-v0'', v_agent = AgentObject, v_episodes = - 2,
                     v_render = False, v_seed = None, v_save = SaveInt 1\<rparr>\<rparr>"
  have a: "(- 2 :: int) < - 1" by simp
  have b: "startup (toy_ops 5) ''CartPole-v0'' ''random'' (- 2) False None (SaveInt 1) (0::nat)
      = Inr (?rp, Some 10, ?s)"
    by code_simp
  have c: "finalize (toy_ops 5) ?rp ?s
      = (Inr (), ?s\<lparr>trace := [GymMake ''CartPole-v0'', NewAgent ''random'' ?rp,
            Save ''results/random/CartPole-v0/17-03-05-10-20-30/final.pkl'']\<rparr>)"
    by code_simp
  from episodes_below_minus_one [OF a, of 0 "toy_ops 5" "''CartPole-v0''" "''random''" False None
      "SaveInt 1" 0] b
  have "main 0 (toy_ops 5) ''CartPole-v0'' ''random'' (- 2) False None (SaveInt 1) 0
      = Some (case finalize (toy_ops 5) ?rp ?s of
                (Inl e, s2) \<Rightarrow> (Uncaught e, s2)
              | (Inr u, s2) \<Rightarrow> (Returned_Agent, s2))"
    by blast
  with c show ?thesis by simp
qed

text \<open>
  C4. When the episode loop is left by a \<open>KeyboardInterrupt\<close>, \<open>main\<close> logs the
  cancellation, runs the \<open>finally\<close> block on the state of the interruption, and
  returns the agent unless the block itself raises: the interrupt is not re-raised.
  After the cancellation notice the trace holds the events of one finalization and
  nothing else; over the whole run the operator is asked exactly once when \<open>save\<close>
  was \<open>None\<close> and never otherwise, and \<open>agent.save\<close> is called exactly once when the
  resolved \<open>save\<close> is true and never otherwise.
\<close>

theorem interrupt_reaches_finalization_once:
  assumes "startup ops game agent episodes render seed save w = Inr (rp, ms, s)"
    and "episode_loop fuel ops ms 0 s = Some (Inl KeyboardInterrupt, episode, s1)"
  shows "\<exists>fr s' fin. finalize ops rp (emit (LogError ''Canceled by user!'') s1) = (fr, s')
      \<and> main fuel ops game agent episodes render seed save w
          = Some (case fr of Inl e \<Rightarrow> Uncaught e | Inr u \<Rightarrow> Returned_Agent, s')
      \<and> trace s' = trace s1 @ LogError ''Canceled by user!'' # fin
      \<and> fin = map RawInput (prompts fin) @ map Save (saves fin)
      \<and> prompts (trace s') = (if save = SaveNone then [''Save agent? ''] else [])
      \<and> saves (trace s')
          = (if truthy (v_save (vars s')) then [os_path_join rp [''final.pkl'']] else [])"
proof -
  let ?s2 = "emit (LogError ''Canceled by user!'') s1"
  obtain fr s' where f: "finalize ops rp ?s2 = (fr, s')" by (cases "finalize ops rp ?s2")
  from assms f have m: "main fuel ops game agent episodes render seed save w
          = Some (case fr of Inl e \<Rightarrow> Uncaught e | Inr u \<Rightarrow> Returned_Agent, s')"
    by (simp add: main_def try_loop_def split: sum.splits)
  note st = startup_Inr [OF assms(1)]
  from episode_loop_frame [OF assms(2)] obtain evs1 where
    1: "vars s1 = vars s" "trace s1 = trace s @ evs1" "list_all episode_event evs1"
    by blast
  from finalize_shape [OF f] obtain fin where
    3: "trace s' = trace ?s2 @ fin"
      "fin = map RawInput (prompts fin) @ map Save (saves fin)"
      "prompts fin = (if v_save (vars ?s2) = SaveNone then [''Save agent? ''] else [])"
      "saves fin = (if truthy (v_save (vars s')) then [os_path_join rp [''final.pkl'']] else [])"
    by blast
  have t: "trace s' = trace s1 @ LogError ''Canceled by user!'' # fin"
    using 3(1) by (simp add: emit_def)
  have p: "prompts (trace s') = (if save = SaveNone then [''Save agent? ''] else [])"
    using t 1 3(3) st episode_events_only [OF 1(3)] by (simp add: emit_def)
  have q: "saves (trace s')
          = (if truthy (v_save (vars s')) then [os_path_join rp [''final.pkl'']] else [])"
    using t 1 3(4) st episode_events_only [OF 1(3)] by simp
  from f m t 3(2) p q show ?thesis by blast
qed

theorem interrupt_reaches_finalization_once_witness:
  "main 3 interrupted_ops ''CartPole-v0'' ''random'' 3 False None SaveNone 0 \<noteq> None
   \<and> prompts (trace (snd (the
         (main 3 interrupted_ops ''CartPole-v0'' ''random'' 3 False None SaveNone 0))))
       = [''Save agent? '']"
proof -
  let ?rp = "''results/random/CartPole-v0/17-03-05-10-20-30''"
  let ?s = "\<lparr>world = 0, trace = [GymMake ''CartPole-v0'', NewAgent ''random'' ?rp],
             vars = \<lparr>v_game = ''CartPole-v0'', v_agent = AgentObject, v_episodes = 3,
                     v_render = False, v_seed = None, v_save = SaveNone\<rparr>\<rparr>"
  let ?l = "episode_loop 3 interrupted_ops (Some 10) 0 ?s"
  have a: "startup interrupted_ops ''CartPole-v0'' ''random'' 3 False None SaveNone (0::nat)
      = Inr (?rp, Some 10, ?s)"
    by code_simp
  have b: "?l = Some (Inl KeyboardInterrupt, 1, snd (snd (the ?l)))"
    by code_simp
  from interrupt_reaches_finalization_once [OF a b]
  obtain fr :: "exn + unit" and s' where
    "main 3 interrupted_ops ''CartPole-v0'' ''random'' 3 False None SaveNone 0
       = Some (case fr of Inl e \<Rightarrow> Uncaught e | Inr u \<Rightarrow> Returned_Agent, s')"
    "prompts (trace s') = (if SaveNone = SaveNone then [''Save agent? ''] else [])"
    by blast
  then show ?thesis by simp
qed

subsection \<open>Episodes that end at a fixed step\<close>

lemma step_body_done_at:
  assumes "done_at ops cnt k"
  shows "\<exists>a ob' rew s1. step_body ops ms v s
        = (Inr \<lparr>observation = ob', is_done = (cnt (world s) + 1 = k),
                 total_reward = total_reward v + rew, step = step v + 1\<rparr>, s1)
      \<and> cnt (world s1) = cnt (world s) + 1
      \<and> trace s1 = trace s @ (if v_render (vars s) then [Render] else [])
            @ [Act (observation v), Step a (Inr (ob', rew, cnt (world s) + 1 = k)),
               React (observation v) a rew (cnt (world s) + 1 = k) ob' (py_eq (step v + 1) ms)]"
proof -
  from assms have "\<exists>w'. env_render ops (world s) = (Inr (), w') \<and> cnt w' = cnt (world s)"
    by (simp add: done_at_def)
  then have "\<exists>s1. (if v_render (vars s) then call Render (env_render ops) else skip) s = (Inr (), s1)
      \<and> cnt (world s1) = cnt (world s)
      \<and> trace s1 = trace s @ (if v_render (vars s) then [Render] else [])
      \<and> vars s1 = vars s"
    by (cases "v_render (vars s)") (auto simp: call_def skip_def)
  then obtain s1 where 1:
    "(if v_render (vars s) then call Render (env_render ops) else skip) s = (Inr (), s1)"
    "cnt (world s1) = cnt (world s)"
    "trace s1 = trace s @ (if v_render (vars s) then [Render] else [])"
    by blast
  from assms obtain a w2 where
    "agent_act ops (observation v) (world s1) = (Inr a, w2)" "cnt w2 = cnt (world s1)"
    unfolding done_at_def by blast
  then obtain s2 where 2:
    "call (Act (observation v)) (agent_act ops (observation v)) s1 = (Inr a, s2)"
    "cnt (world s2) = cnt (world s1)" "trace s2 = trace s1 @ [Act (observation v)]"
    by (simp add: call_def)
  from assms obtain ob' rew w3 where
    "env_step ops a (world s2) = (Inr (ob', rew, cnt (world s2) + 1 = k), w3)"
    "cnt w3 = cnt (world s2) + 1"
    unfolding done_at_def by blast
  then obtain s3 where 3:
    "call_step ops a s2 = (Inr (ob', rew, cnt (world s2) + 1 = k), s3)"
    "cnt (world s3) = cnt (world s2) + 1"
    "trace s3 = trace s2 @ [Step a (Inr (ob', rew, cnt (world s2) + 1 = k))]"
    by (simp add: call_step_def)
  let ?d = "cnt (world s) + 1 = k"
  let ?t = "py_eq (step v + 1) ms"
  from assms obtain w4 where
    "agent_react ops (observation v) a rew ?d ob' ?t (world s3) = (Inr (), w4)"
    "cnt w4 = cnt (world s3)"
    unfolding done_at_def by blast
  then obtain s4 where 4:
    "call (React (observation v) a rew ?d ob' ?t)
       (agent_react ops (observation v) a rew ?d ob' ?t) s3 = (Inr (), s4)"
    "cnt (world s4) = cnt (world s3)"
    "trace s4 = trace s3 @ [React (observation v) a rew ?d ob' ?t]"
    by (simp add: call_def)
  from 1 2 3 4 have "step_body ops ms v s
        = (Inr \<lparr>observation = ob', is_done = ?d,
                 total_reward = total_reward v + rew, step = step v + 1\<rparr>, s4)"
    by (simp add: step_body_def and_then_def Let_def)
  moreover from 1 2 3 4 have "cnt (world s4) = cnt (world s) + 1" by simp
  moreover from 1 2 3 4 have "trace s4 = trace s @ (if v_render (vars s) then [Render] else [])
            @ [Act (observation v), Step a (Inr (ob', rew, ?d)),
               React (observation v) a rew ?d ob' ?t]" by simp
  ultimately show ?thesis by blast
qed


lemma step_loop_done_at:
  assumes kL: "k < L"
  shows "done_at ops cnt k \<Longrightarrow> cnt (world s) = step v \<Longrightarrow> step v < k \<Longrightarrow> \<not> is_done v \<Longrightarrow>
     \<exists>v' s' evs. step_loop ops (Some L) v s = (Inr v', s') \<and> trace s' = trace s @ evs
       \<and> outline evs = replicate (nat (k - step v)) MStep
       \<and> react_flags evs
           = replicate (nat (k - step v) - 1) (False, False) @ [(True, False)]"
proof (induction ops "Some L" v s rule: step_loop.induct)
  case (1 ops v s)
  note d = "1.prems"(1)
  from "1.prems" kL have c: "py_lt (step v) (Some L) \<and> \<not> is_done v" by simp
  from step_body_done_at [OF d, of "Some L" v s] "1.prems"(2)
  obtain a ob' rew s1 where
    b: "step_body ops (Some L) v s
        = (Inr \<lparr>observation = ob', is_done = (step v + 1 = k),
                 total_reward = total_reward v + rew, step = step v + 1\<rparr>, s1)"
    and c1: "cnt (world s1) = step v + 1"
    and t1: "trace s1 = trace s @ (if v_render (vars s) then [Render] else [])
            @ [Act (observation v), Step a (Inr (ob', rew, step v + 1 = k)),
               React (observation v) a rew (step v + 1 = k) ob' (py_eq (step v + 1) (Some L))]"
    by auto
  let ?v1 = "\<lparr>observation = ob', is_done = (step v + 1 = k),
                 total_reward = total_reward v + rew, step = step v + 1\<rparr>"
  let ?body = "(if v_render (vars s) then [Render] else [])
            @ [Act (observation v), Step a (Inr (ob', rew, step v + 1 = k)),
               React (observation v) a rew (step v + 1 = k) ob' (py_eq (step v + 1) (Some L))]"
  from c b have n: "step_loop ops (Some L) v s = step_loop ops (Some L) ?v1 s1"
    by (rule step_loop_next)
  show ?case
  proof (cases "step v + 1 = k")
    case True
    then have "step_loop ops (Some L) ?v1 s1 = (Inr ?v1, s1)"
      by (simp add: step_loop_stop)
    moreover from True have "nat (k - step v) = 1" by simp
    moreover from True kL have "\<not> py_eq (step v + 1) (Some L)" by simp
    ultimately have "step_loop ops (Some L) v s = (Inr ?v1, s1) \<and> trace s1 = trace s @ ?body
       \<and> outline ?body = replicate (nat (k - step v)) MStep
       \<and> react_flags ?body
           = replicate (nat (k - step v) - 1) (False, False) @ [(True, False)]"
      using n t1 True by simp
    then show ?thesis by blast
  next
    case False
    with "1.prems" have lt: "step ?v1 < k" by simp
    from "1.hyps" [of "Inr ?v1" s1 ?v1] c b d c1 lt False
    obtain v' s' evs where
      l: "step_loop ops (Some L) ?v1 s1 = (Inr v', s')" "trace s' = trace s1 @ evs"
        "outline evs = replicate (nat (k - (step v + 1))) MStep"
        "react_flags evs
           = replicate (nat (k - (step v + 1)) - 1) (False, False) @ [(True, False)]"
      by auto
    from lt obtain m where m: "nat (k - (step v + 1)) = Suc m"
      by (cases "nat (k - (step v + 1))") auto
    then have m2: "nat (k - step v) = Suc (Suc m)" by linarith
    from False lt kL have nt: "\<not> py_eq (step v + 1) (Some L)" by simp
    have "step_loop ops (Some L) v s = (Inr v', s') \<and> trace s' = trace s @ (?body @ evs)
       \<and> outline (?body @ evs) = replicate (nat (k - step v)) MStep
       \<and> react_flags (?body @ evs)
           = replicate (nat (k - step v) - 1) (False, False) @ [(True, False)]"
      using n l t1 m m2 nt False by simp
    then show ?thesis by blast
  qed
qed

lemma run_episode_done_at:
  assumes d: "done_at ops cnt k" and k: "0 < k" "k < L"
  shows "\<exists>s' evs. run_episode ops (Some L) episode s = (Inr (), s') \<and> vars s' = vars s
       \<and> trace s' = trace s @ evs
       \<and> outline evs = MReset # replicate (nat k) MStep @ [MLog episode]
       \<and> react_flags evs = replicate (nat k - 1) (False, False) @ [(True, False)]"
proof -
  from d obtain ob w1 where "env_reset ops (world s) = (Inr ob, w1)" "cnt w1 = 0"
    unfolding done_at_def by blast
  then obtain s1 where 1: "call Reset (env_reset ops) s = (Inr ob, s1)"
    "cnt (world s1) = 0" "trace s1 = trace s @ [Reset]" "vars s1 = vars s"
    by (simp add: call_def)
  let ?v = "\<lparr>observation = ob, is_done = False, total_reward = 0, step = 0\<rparr>"
  from step_loop_done_at [OF k(2) d, of s1 ?v] 1(2) k(1)
  obtain v' s2 evs where 2: "step_loop ops (Some L) ?v s1 = (Inr v', s2)"
    "trace s2 = trace s1 @ evs" "outline evs = replicate (nat k) MStep"
    "react_flags evs = replicate (nat k - 1) (False, False) @ [(True, False)]"
    by auto
  let ?s' = "emit (LogDebug episode (total_reward v')) s2"
  let ?evs = "Reset # evs @ [LogDebug episode (total_reward v')]"
  from 1 2 have "run_episode ops (Some L) episode s = (Inr (), ?s')"
    by (simp add: run_episode_def and_then_def)
  moreover from step_loop_vars [OF 2(1)] 1(4) have "vars ?s' = vars s"
    by (simp add: emit_def)
  moreover from 1 2 have "trace ?s' = trace s @ ?evs" by (simp add: emit_def)
  moreover from 2 have "outline ?evs = MReset # replicate (nat k) MStep @ [MLog episode]"
    by simp
  moreover from 2 have "react_flags ?evs = replicate (nat k - 1) (False, False) @ [(True, False)]"
    by simp
  ultimately show ?thesis by blast
qed

lemma episode_loop_done_at:
  assumes d: "done_at ops cnt k" and k: "0 < k" "k < L"
  shows "v_episodes (vars s) = N \<Longrightarrow> N \<noteq> - 1 \<Longrightarrow> nat (N - episode) \<le> fuel \<Longrightarrow>
     \<exists>s' evs. episode_loop fuel ops (Some L) episode s = Some (Inr (), max episode N, s')
        \<and> trace s' = trace s @ evs
        \<and> outline evs
            = concat (map (\<lambda>j. MReset # replicate (nat k) MStep @ [MLog j]) [episode + 1..N])
        \<and> react_flags evs
            = concat (map (\<lambda>j. replicate (nat k - 1) (False, False) @ [(True, False)])
                [episode + 1..N])"
proof (induction fuel arbitrary: episode s)
  case 0
  then have "\<not> (v_episodes (vars s) = - 1 \<or> episode < v_episodes (vars s))" by auto
  then have "episode_loop 0 ops (Some L) episode s = Some (Inr (), episode, s)"
    by (rule episode_loop_stop)
  with 0 show ?case by auto
next
  case (Suc n)
  show ?case
  proof (cases "episode < N")
    case False
    with Suc.prems have "\<not> (v_episodes (vars s) = - 1 \<or> episode < v_episodes (vars s))" by auto
    then have "episode_loop (Suc n) ops (Some L) episode s = Some (Inr (), episode, s)"
      by (rule episode_loop_stop)
    with False show ?thesis by auto
  next
    case True
    with Suc.prems have c: "v_episodes (vars s) = - 1 \<or> episode < v_episodes (vars s)" by simp
    from run_episode_done_at [OF d k, of "episode + 1" s]
    obtain s1 evs1 where e1: "run_episode ops (Some L) (episode + 1) s = (Inr (), s1)"
      "vars s1 = vars s" "trace s1 = trace s @ evs1"
      "outline evs1 = MReset # replicate (nat k) MStep @ [MLog (episode + 1)]"
      "react_flags evs1 = replicate (nat k - 1) (False, False) @ [(True, False)]"
      by blast
    from c e1(1)
    have n: "episode_loop (Suc n) ops (Some L) episode s
        = episode_loop n ops (Some L) (episode + 1) s1"
      by (rule episode_loop_next)
    from e1(2) Suc.prems have "v_episodes (vars s1) = N" by simp
    moreover from Suc.prems(3) True have "nat (N - (episode + 1)) \<le> n" by simp
    ultimately obtain s' evs where
      l: "episode_loop n ops (Some L) (episode + 1) s1 = Some (Inr (), max (episode + 1) N, s')"
        "trace s' = trace s1 @ evs"
        "outline evs = concat (map (\<lambda>j. MReset # replicate (nat k) MStep @ [MLog j])
            [episode + 1 + 1..N])"
        "react_flags evs = concat (map (\<lambda>j. replicate (nat k - 1) (False, False) @ [(True, False)])
            [episode + 1 + 1..N])"
      using Suc.IH [of s1 "episode + 1"] Suc.prems(2) by blast
    have u: "[episode + 1..N] = (episode + 1) # [episode + 1 + 1..N]"
      using True by (simp add: upto_rec1 [of "episode + 1" N])
    have "episode_loop (Suc n) ops (Some L) episode s = Some (Inr (), max episode N, s')
        \<and> trace s' = trace s @ (evs1 @ evs)
        \<and> outline (evs1 @ evs)
            = concat (map (\<lambda>j. MReset # replicate (nat k) MStep @ [MLog j]) [episode + 1..N])
        \<and> react_flags (evs1 @ evs)
            = concat (map (\<lambda>j. replicate (nat k - 1) (False, False) @ [(True, False)])
                [episode + 1..N])"
      using n l e1 u True by (simp add: max_def)
    then show ?thesis by blast
  qed
qed

lemma toy_done_at: "done_at (toy_ops 5) int 5"
  by (auto simp: done_at_def toy_ops_def)

text \<open>
  C6. Budget 3, step limit 10, and collaborators whose every episode ends naturally
  at step 5 (\<open>done_at ops cnt 5\<close>): once start-up is through, \<open>main\<close> returns with
  fuel for three episodes, and the trace of the whole run shows three episodes, each
  a reset, five calls of \<open>env.step\<close> and the log line of episodes 1, 2 and 3; all
  fifteen transitions handed to \<open>agent.react\<close> have a false truncation flag.
\<close>

theorem three_episodes_of_five_steps:
  assumes "done_at ops cnt 5"
    and "startup ops game agent 3 render seed save w = Inr (rp, Some 10, s)"
    and "3 \<le> fuel"
  shows "\<exists>res s'. main fuel ops game agent 3 render seed save w = Some (res, s')
      \<and> outline (trace s')
          = concat (map (\<lambda>j. MReset # replicate 5 MStep @ [MLog j]) [1, 2, 3])
      \<and> map snd (react_flags (trace s')) = replicate 15 False"
proof -
  note st = startup_Inr [OF assms(2)]
  from st have "v_episodes (vars s) = 3" by simp
  moreover have "[0 + 1..3] = [1, 2, 3::int]" by (simp add: upto_rec1)
  ultimately obtain s1 evs where
    l: "episode_loop fuel ops (Some 10) 0 s = Some (Inr (), 3, s1)"
      "trace s1 = trace s @ evs"
      "outline evs = concat (map (\<lambda>j. MReset # replicate 5 MStep @ [MLog j]) [1, 2, 3])"
      "react_flags evs = concat (map (\<lambda>j. replicate 4 (False, False) @ [(True, False)]) [1, 2, 3])"
    using episode_loop_done_at [OF assms(1), of 10 s 3 0 fuel] assms(3) by auto
  obtain fr s' where f: "finalize ops rp s1 = (fr, s')" by (cases "finalize ops rp s1")
  from finalize_shape [OF f] obtain fin where
    3: "trace s' = trace s1 @ fin" "filter episode_event fin = []"
    by blast
  from assms(2) l(1) f
  have "main fuel ops game agent 3 render seed save w
      = Some (case fr of Inl e \<Rightarrow> Uncaught e | Inr u \<Rightarrow> Returned_Agent, s')"
    by (simp add: main_def try_loop_def split: sum.splits)
  moreover from st have "outline (trace s) = []" "react_flags (trace s) = []"
    by (simp_all add: no_episode_events)
  with l 3 no_episode_events [OF 3(2)]
  have "outline (trace s')
          = concat (map (\<lambda>j. MReset # replicate 5 MStep @ [MLog j]) [1, 2, 3])"
    "map snd (react_flags (trace s')) = replicate 15 False"
    by (simp_all add: numeral_eq_Suc)
  ultimately show ?thesis by blast
qed

theorem three_episodes_of_five_steps_witness:
  "map_option (\<lambda>(res, s). (outline (trace s), map snd (react_flags (trace s))))
     (main 3 (toy_ops 5) ''CartPole-v0'' ''random'' 3 False None (SaveBool False) 0)
   = Some ([MReset, MStep, MStep, MStep, MStep, MStep, MLog 1,
            MReset, MStep, MStep, MStep, MStep, MStep, MLog 2,
            MReset, MStep, MStep, MStep, MStep, MStep, MLog 3],
           replicate 15 False)"
proof -
  let ?rp = "''results/random/CartPole-v0/17-03-05-10-20-30''"
  let ?s = "\<lparr>world = 0, trace = [GymMake ''CartPole-v0'', NewAgent ''random'' ?rp],
             vars = \<lparr>v_game = ''CartPole-v0'', v_agent = AgentObject, v_episodes = 3,
                     v_render = False, v_seed = None, v_save = SaveBool False\<rparr>\<rparr>"
  have a: "startup (toy_ops 5) ''CartPole-v0'' ''random'' 3 False None (SaveBool False) (0::nat)
      = Inr (?rp, Some 10, ?s)"
    by code_simp
  from three_episodes_of_five_steps [OF toy_done_at a, of 3]
  obtain res s' where
    "main 3 (toy_ops 5) ''CartPole-v0'' ''random'' 3 False None (SaveBool False) 0 = Some (res, s')"
    "outline (trace s')
          = concat (map (\<lambda>j. MReset # replicate 5 MStep @ [MLog j]) [1, 2, 3])"
    "map snd (react_flags (trace s')) = replicate 15 False"
    by auto
  then show ?thesis by (simp add: numeral_eq_Suc)
qed

subsection \<open>Seeding\<close>

lemma seeding_Some:
  "v_seed (vars s) = Some n \<Longrightarrow> seeding ops s = (Inl (NameError ''random''), s)"
  by (simp add: seeding_def and_then_def load_global_def module_globals_def builtins_used_def)

lemma prepare_seeded:
  assumes "v_seed (vars s) = Some n"
  shows "\<exists>e s'. prepare ops rp s = (Inl e, s')
            \<and> filter (\<lambda>ev. agent_event ev \<or> episode_event ev) (trace s')
                = filter (\<lambda>ev. agent_event ev \<or> episode_event ev) (trace s)
            \<and> (e = NameError ''random''
                \<or> is_True (v_save (vars s)) \<and> fst (os_makedirs ops rp (world s)) = Inl e
                \<or> fst (gym_make ops (v_game (vars s))
                     (if is_True (v_save (vars s)) then snd (os_makedirs ops rp (world s))
                      else world s)) = Inl e)"
  using assms
  by (auto simp: prepare_def and_then_def call_def skip_def seeding_Some
      split: prod.splits sum.splits)

text \<open>
  C8. A run with a seed never gets past the seeding branch: \<open>main\<close> ends with an
  uncaught exception whatever the fuel, before the agent is constructed and before
  any episode. The exception is the \<open>NameError\<close> for \<open>random\<close>, a name the module never
  binds, unless one of the two calls before the branch (\<open>os.makedirs\<close>, made only
  when \<open>save is True\<close>, and \<open>gym.make\<close>) has itself raised.
\<close>

theorem seed_raises_NameError:
  "\<exists>e s'. main fuel ops game agent episodes render (Some n) save w = Some (Uncaught e, s')
      \<and> filter (\<lambda>ev. agent_event ev \<or> episode_event ev) (trace s') = []
      \<and> (e = NameError ''random''
          \<or> is_True save
             \<and> fst (os_makedirs ops
                   (os_path_join ''results'' [agent, game, time_strftime ops w]) w) = Inl e
          \<or> fst (gym_make ops game
               (if is_True save
                then snd (os_makedirs ops
                       (os_path_join ''results'' [agent, game, time_strftime ops w]) w)
                else w)) = Inl e)"
proof -
  let ?s0 = "\<lparr>world = w, trace = [],
                vars = \<lparr>v_game = game, v_agent = AgentName agent, v_episodes = episodes,
                        v_render = render, v_seed = Some n, v_save = save\<rparr>\<rparr>"
  let ?rp = "os_path_join ''results'' [agent, game, time_strftime ops w]"
  have "\<exists>e s'. prepare ops ?rp ?s0 = (Inl e, s')
     \<and> filter (\<lambda>ev. agent_event ev \<or> episode_event ev) (trace s') = []
     \<and> (e = NameError ''random''
                \<or> is_True save \<and> fst (os_makedirs ops ?rp w) = Inl e
                \<or> fst (gym_make ops game
                     (if is_True save then snd (os_makedirs ops ?rp w) else w)) = Inl e)"
    using prepare_seeded [where s = ?s0 and n = n and ops = ops and rp = ?rp]
    by (cases "is_True save") simp_all
  then obtain e s' where "prepare ops ?rp ?s0 = (Inl e, s')"
     "filter (\<lambda>ev. agent_event ev \<or> episode_event ev) (trace s') = []"
     "(e = NameError ''random''
                \<or> is_True save \<and> fst (os_makedirs ops ?rp w) = Inl e
                \<or> fst (gym_make ops game
                     (if is_True save then snd (os_makedirs ops ?rp w) else w)) = Inl e)"
    by blast
  then show ?thesis
    by (simp add: main_def startup_def Let_def)
qed

theorem seed_raises_NameError_witness:
  "map_option fst (main 3 (toy_ops 5) ''CartPole-v0'' ''random'' 3 False (Some 42) (SaveBool True) 0)
     = Some (Uncaught (NameError ''random''))"
proof -
  have a: "fst (os_makedirs (toy_ops 5) p w) = Inr ()" for p w
    by (simp add: toy_ops_def)
  have b: "fst (gym_make (toy_ops 5) g w) = Inr ()" for g w
    by (simp add: toy_ops_def)
  obtain e s' where
    "main 3 (toy_ops 5) ''CartPole-v0'' ''random'' 3 False (Some 42) (SaveBool True) 0
       = Some (Uncaught e, s')"
    and "e = NameError ''random''
          \<or> fst (os_makedirs (toy_ops 5) (os_path_join ''results''
                 [''random'', ''CartPole-v0'', time_strftime (toy_ops 5) 0]) 0) = Inl e
          \<or> fst (gym_make (toy_ops 5) ''CartPole-v0''
                 (snd (os_makedirs (toy_ops 5) (os_path_join ''results''
                    [''random'', ''CartPole-v0'', time_strftime (toy_ops 5) 0]) 0))) = Inl e"
    using seed_raises_NameError [of 3 "toy_ops 5" "''CartPole-v0''" "''random''" 3 False 42
        "SaveBool True" 0]
    by auto
  then show ?thesis
    by (auto simp: a b)
qed

end
